theory Spec2Isabelle
  imports Main "HOL-Library.Word"
begin

unbundle bit_operations_syntax

section \<open>Data model of \<^verbatim>\<open>cmds-send.c\<close>\<close>

type_synonym u64 = "64 word"
type_synonym uuid_t = "128 word"

text \<open>
  The fields of \<^verbatim>\<open>struct subvol_info\<close> that \<^verbatim>\<open>cmds-send.c\<close> reads.
\<close>

record subvol_info =
  root_id :: u64
  uuid :: uuid_t
  parent_uuid :: uuid_t
  ctransid :: u64
  path :: string

text \<open>Values of \<^verbatim>\<open>errno\<close> the file names (Linux numbering of \<^verbatim>\<open>errno.h\<close>).\<close>

definition ENOENT :: int where "ENOENT = 2"
definition EIO :: int where "EIO = 5"
definition ENOMEM :: int where "ENOMEM = 12"
definition EINVAL :: int where "EINVAL = 22"

datatype subvol_search_type =
  subvol_search_by_root_id | subvol_search_by_uuid | subvol_search_by_path

text \<open>
  Modelled from the spec: \<^verbatim>\<open>subvol_uuid_search\<close> and \<^verbatim>\<open>struct subvol_uuid_search\<close>
  live in \<^verbatim>\<open>send-utils.c\<close>, which is not among the sources. The spec describes the
  registry as a queryable index that, given a path, a root identifier or a uuid, returns the
  record \<open>{root_id, uuid, parent_uuid, creation_transaction_id, path}\<close> or nothing. The
  index is the list of records; a query returns the first record whose key field equals the
  key asked for. The arguments are those of the C calls: the key that a search type does
  not use is passed as \<open>0\<close> or the empty path, as the callers pass \<^verbatim>\<open>0\<close> and
  \<^verbatim>\<open>NULL\<close>.
\<close>

type_synonym sus_t = "subvol_info list"

fun subvol_uuid_search ::
  "sus_t \<Rightarrow> u64 \<Rightarrow> uuid_t \<Rightarrow> u64 \<Rightarrow> string \<Rightarrow> subvol_search_type \<Rightarrow> subvol_info option" where
  "subvol_uuid_search s rid u transid p subvol_search_by_root_id =
     find (\<lambda>si. root_id si = rid) s"
| "subvol_uuid_search s rid u transid p subvol_search_by_uuid =
     find (\<lambda>si. uuid si = u) s"
| "subvol_uuid_search s rid u transid p subvol_search_by_path =
     find (\<lambda>si. path si = p) s"

text \<open>
  \<^verbatim>\<open>struct btrfs_send\<close>. The array \<^verbatim>\<open>clone_sources\<close> and its length
  \<^verbatim>\<open>clone_sources_count\<close> are one list; \<^verbatim>\<open>root_path\<close> is \<open>None\<close> for
  \<^verbatim>\<open>NULL\<close>. The three file descriptors are numbers handed back to the system calls
  that produced them and are not kept: the bytes written to \<^verbatim>\<open>dump_fd\<close> are part of
  the process state below.
\<close>

record btrfs_send =
  clone_sources :: "u64 list"
  root_path :: "string option"
  sus :: sus_t

section \<open>Parent search\<close>

definition get_root_id :: "btrfs_send \<Rightarrow> string \<Rightarrow> int + u64" where
  "get_root_id s p =
     (case subvol_uuid_search (sus s) 0 0 0 p subvol_search_by_path of
        None \<Rightarrow> Inl (- ENOENT)
      | Some si \<Rightarrow> Inr (root_id si))"

definition get_parent :: "btrfs_send \<Rightarrow> u64 \<Rightarrow> subvol_info option" where
  "get_parent s rid =
     (case subvol_uuid_search (sus s) rid 0 0 [] subvol_search_by_root_id of
        None \<Rightarrow> None
      | Some si_tmp \<Rightarrow>
          subvol_uuid_search (sus s) 0 (parent_uuid si_tmp) 0 [] subvol_search_by_uuid)"

text \<open>
  The second loop of \<^verbatim>\<open>find_good_parent\<close>, from position \<open>i\<close> of the array on, as a
  recursion over the clone sources still to visit. \<open>best_parent\<close> and \<open>best_diff\<close> are
  the loop's variables. \<^verbatim>\<open>tmp\<close> is an \<^verbatim>\<open>__s64\<close>: the difference of the two
  \<^verbatim>\<open>u64\<close> values is read as two's complement, negated when negative (the negation
  wraps), and compared with the \<^verbatim>\<open>u64\<close> \<open>best_diff\<close> as an unsigned value.
\<close>

fun find_good_parent_scan ::
  "btrfs_send \<Rightarrow> subvol_info \<Rightarrow> u64 list \<Rightarrow> subvol_info option \<Rightarrow> u64 \<Rightarrow> int + u64" where
  "find_good_parent_scan s parent [] best_parent best_diff =
     (case best_parent of
        None \<Rightarrow> Inl (- ENOENT)
      | Some b \<Rightarrow> Inr (root_id b))"
| "find_good_parent_scan s parent (c # cs) best_parent best_diff =
     (case get_parent s c of
        None \<Rightarrow> find_good_parent_scan s parent cs best_parent best_diff
      | Some parent2 \<Rightarrow>
          if root_id parent2 \<noteq> root_id parent
          then find_good_parent_scan s parent cs best_parent best_diff
          else (case subvol_uuid_search (sus s) c 0 0 [] subvol_search_by_root_id of
                  None \<Rightarrow> Inl (- ENOENT)
                | Some parent2' \<Rightarrow>
                    let tmp = ctransid parent2' - ctransid parent;
                        tmp = (if tmp <s 0 then tmp * (- 1) else tmp)
                    in if tmp < best_diff
                       then find_good_parent_scan s parent cs (Some parent2') tmp
                       else find_good_parent_scan s parent cs best_parent best_diff))"

definition find_good_parent :: "btrfs_send \<Rightarrow> u64 \<Rightarrow> int + u64" where
  "find_good_parent s rid =
     (case get_parent s rid of
        None \<Rightarrow> Inl (- ENOENT)
      | Some parent \<Rightarrow>
          if root_id parent \<in> set (clone_sources s)
          then Inr (root_id parent)
          else find_good_parent_scan s parent (clone_sources s) None (- 1))"

section \<open>The environment and the clone-source array\<close>

text \<open>
  What the process asks of the operating system and of the parts of the tool that are not
  in \<^verbatim>\<open>cmds-send.c\<close> is an environment of functions. A failed system call is
  \<open>Inl errno\<close> or \<open>Some errno\<close>, the positive value of \<^verbatim>\<open>errno\<close> after the call,
  and the code's \<^verbatim>\<open>ret = -errno\<close> is written out where it happens; a test
  \<^verbatim>\<open>ret < 0\<close> on such a result is the \<open>Inl\<close> branch. All paths handed to
  \<^verbatim>\<open>open\<close> and \<^verbatim>\<open>openat\<close> come from \<^verbatim>\<open>realpath\<close> and are absolute, so
  the directory descriptor plays no part.
  \<^item> \<open>realpath\<close>, \<open>open_errno\<close>, \<open>creat_errno\<close>, \<open>isatty\<close> (of the dump target, named
    by the output file, empty for the standard output), \<open>pipe_errno\<close>,
    \<open>pthread_create_err\<close> and \<open>pthread_join_err\<close> (per subvolume being sent) are the
    library and system calls of those names;
  \<^item> \<open>realloc_fails n\<close>: \<^verbatim>\<open>realloc\<close> to \<open>n\<close> array elements returns \<^verbatim>\<open>NULL\<close>;
  \<^item> \<open>find_mount_root\<close>, \<open>subvol_uuid_search_init\<close>, \<open>subvol_strip_mountpoint\<close> and
    \<open>arg_copy_path\<close> are the functions of \<^verbatim>\<open>utils.c\<close> and \<^verbatim>\<open>send-utils.c\<close>, with
    their return values (\<open>find_mount_root\<close>: the return value and the mount root);
  \<^item> \<open>subvol_getflags\<close> is the ioctl \<^verbatim>\<open>BTRFS_IOC_SUBVOL_GETFLAGS\<close> and \<open>ioctl_send\<close>
    the ioctl \<^verbatim>\<open>BTRFS_IOC_SEND\<close>. A flag word is the set of the flags it holds.
\<close>

type_synonym byte = "8 word"

datatype subvol_flag = BTRFS_SUBVOL_RDONLY | BTRFS_SUBVOL_OTHER nat

datatype send_flag =
    BTRFS_SEND_FLAG_NO_FILE_DATA
  | BTRFS_SEND_FLAG_OMIT_STREAM_HEADER
  | BTRFS_SEND_FLAG_OMIT_END_CMD

text \<open>
  \<^verbatim>\<open>struct btrfs_ioctl_send_args\<close> as \<^verbatim>\<open>do_send\<close> fills it (its \<^verbatim>\<open>send_fd\<close>
  is the write end of the pipe).
\<close>

record btrfs_ioctl_send_args =
  io_clone_sources :: "u64 list"
  io_parent_root :: u64
  io_flags :: "send_flag set"

datatype read_outcome = RErr int | RData "byte list"

datatype write_outcome = WErr int | WAccept nat

text \<open>
  The outcome of one \<^verbatim>\<open>BTRFS_IOC_SEND\<close> call. The kernel writes the stream into the
  pipe while the drain thread reads it, and the two run side by side, so the environment
  also says how far the thread gets and what its \<^verbatim>\<open>read\<close> calls return:
  \<open>reads_during\<close> are the reads the thread completes while the ioctl is in progress,
  \<open>reads_after\<close> those it completes once the ioctl has returned. When \<^verbatim>\<open>do_send\<close>
  joins the thread these are the reads of what is left in the pipe, and the end of file
  follows them. When \<^verbatim>\<open>do_send\<close> leaves without joining it they are the reads the
  thread still completes before the process ends, each with the writes that forward it;
  one of them may fail with \<^verbatim>\<open>EBADF\<close> on the read end that \<^verbatim>\<open>do_send\<close> has
  closed. \<open>RData []\<close> is a read that returns 0.
\<close>

record send_ioctl_result =
  ioctl_errno :: "int option"
  reads_during :: "read_outcome list"
  reads_after :: "read_outcome list"

record env =
  realpath :: "string \<Rightarrow> int + string"
  find_mount_root :: "string \<Rightarrow> int \<times> string"
  open_errno :: "string \<Rightarrow> int option"
  subvol_uuid_search_init :: "string \<Rightarrow> int + sus_t"
  subvol_strip_mountpoint :: "string \<Rightarrow> string \<Rightarrow> string"
  subvol_getflags :: "string \<Rightarrow> int + subvol_flag set"
  realloc_fails :: "nat \<Rightarrow> bool"
  arg_copy_path :: "string \<Rightarrow> bool"
  creat_errno :: "string \<Rightarrow> int option"
  isatty :: "string \<Rightarrow> bool"
  pipe_errno :: "string \<Rightarrow> int option"
  pthread_create_err :: "string \<Rightarrow> int option"
  ioctl_send :: "string \<Rightarrow> btrfs_ioctl_send_args \<Rightarrow> send_ioctl_result"
  pthread_join_err :: "string \<Rightarrow> int option"

text \<open>
  \<^verbatim>\<open>add_clone_source\<close>: the array grows by one element, which is the new root id. When
  \<^verbatim>\<open>realloc\<close> fails the old array is freed and the result is \<^verbatim>\<open>-ENOMEM\<close>.
\<close>

definition add_clone_source :: "env \<Rightarrow> btrfs_send \<Rightarrow> u64 \<Rightarrow> (int + unit) \<times> btrfs_send" where
  "add_clone_source E s rid =
     (if realloc_fails E (length (clone_sources s) + 1)
      then (Inl (- ENOMEM), s\<lparr>clone_sources := []\<rparr>)
      else (Inr (), s\<lparr>clone_sources := clone_sources s @ [rid]\<rparr>))"

section \<open>The drain thread\<close>

text \<open>
  The state of the process that the properties below observe: the bytes written to \<^verbatim>\<open>dump_fd\<close>,
  the text printed on the standard output stream, and the record of the system calls made
  on the pipe and on \<^verbatim>\<open>dump_fd\<close>, each with what it returned, and of the send ioctls:
  \<open>Sys_send\<close> when the ioctl is entered, with the subvolume and the argument block, and
  \<open>Sys_send_ret\<close> when it returns, with its error number if it failed.
  \<open>wscript\<close> says how the coming \<^verbatim>\<open>write\<close> calls on \<^verbatim>\<open>dump_fd\<close> end: with an
  error, or taking at most so many bytes (\<open>WAccept 0\<close>: the call returns 0); once the
  script is used up every write takes all it is given.
\<close>

datatype syscall =
    Sys_read read_outcome
  | Sys_write "int + nat"
  | Sys_send string btrfs_ioctl_send_args
  | Sys_send_ret "int option"

record world =
  dumped :: "byte list"
  wscript :: "write_outcome list"
  stdout_text :: string
  calls :: "syscall list"

definition sys_write :: "world \<Rightarrow> byte list \<Rightarrow> (int + nat) \<times> world" where
  "sys_write w bs =
     (case wscript w of
        [] \<Rightarrow>
          (Inr (length bs),
           w\<lparr>dumped := dumped w @ bs, calls := calls w @ [Sys_write (Inr (length bs))]\<rparr>)
      | WErr e # ws \<Rightarrow>
          (Inl e, w\<lparr>wscript := ws, calls := calls w @ [Sys_write (Inl e)]\<rparr>)
      | WAccept n # ws \<Rightarrow>
          (Inr (min n (length bs)),
           w\<lparr>dumped := dumped w @ take (min n (length bs)) bs, wscript := ws,
             calls := calls w @ [Sys_write (Inr (min n (length bs)))]\<rparr>))"

text \<open>The loop of \<^verbatim>\<open>write_buf\<close> from position \<open>pos\<close> of the buffer.\<close>

function write_buf_from :: "world \<Rightarrow> byte list \<Rightarrow> nat \<Rightarrow> (int + unit) \<times> world" where
  "write_buf_from w buf pos =
     (if pos < length buf
      then (case sys_write w (drop pos buf) of
              (Inl e, w') \<Rightarrow> (Inl (- e), w')
            | (Inr ret, w') \<Rightarrow>
                if ret = 0 then (Inl (- EIO), w')
                else write_buf_from w' buf (pos + ret))
      else (Inr (), w))"
  by pat_completeness auto
termination
  by (relation "measure (\<lambda>(w, buf, pos). length buf - pos)") auto

definition write_buf :: "world \<Rightarrow> byte list \<Rightarrow> (int + unit) \<times> world" where
  "write_buf w buf = write_buf_from w buf 0"

text \<open>
  How the thread function ends: \<^verbatim>\<open>exit(-ret)\<close> ends the whole process, and
  \<^verbatim>\<open>return ERR_PTR(ret)\<close> hands \<open>ret\<close> to the joining thread.
\<close>

datatype thread_status = Thread_exit int | Thread_return int

text \<open>
  \<^verbatim>\<open>dump_thread\<close> over the reads that the pipe serves it. Each read returns a chunk
  (the kernel bounds it by \<^verbatim>\<open>sizeof(buf)\<close>, 4096 bytes; nothing below depends on the
  length). The result is \<open>None\<close> while the thread is still in its loop when the reads
  given are used up: its next \<^verbatim>\<open>read\<close> has not returned.
\<close>

fun dump_thread :: "read_outcome list \<Rightarrow> world \<Rightarrow> thread_status option \<times> world" where
  "dump_thread [] w = (None, w)"
| "dump_thread (r # rs) w =
     (let w1 = w\<lparr>calls := calls w @ [Sys_read r]\<rparr> in
      case r of
        RErr e \<Rightarrow> (Some (Thread_exit e), w1)
      | RData buf \<Rightarrow>
          if buf = [] then (Some (Thread_return 0), w1)
          else (case write_buf w1 buf of
                  (Inl ret, w2) \<Rightarrow> (Some (Thread_exit (- ret)), w2)
                | (Inr u, w2) \<Rightarrow> dump_thread rs w2))"

text \<open>
  The thread run to its end on a pipe whose write end is closed: after the reads that
  return what is left in the pipe, \<^verbatim>\<open>read\<close> returns 0.
\<close>

definition dump_thread_closed :: "read_outcome list \<Rightarrow> world \<Rightarrow> thread_status \<times> world" where
  "dump_thread_closed rs w =
     (case dump_thread rs w of
        (Some st, w') \<Rightarrow> (st, w')
      | (None, w') \<Rightarrow> (Thread_return 0, w'\<lparr>calls := calls w' @ [Sys_read (RData [])]\<rparr>))"

section \<open>Sending one subvolume\<close>

text \<open>
  A failure is a negative (or the literal 1) value of \<^verbatim>\<open>ret\<close> on the way to the
  label \<^verbatim>\<open>out\<close>, the end of the process by \<^verbatim>\<open>exit\<close> in the drain thread, or the
  call of \<^verbatim>\<open>usage\<close>, which does not return.
\<close>

datatype failure = Fail int | Exit_proc int | Usage

text \<open>
  The argument block that \<^verbatim>\<open>do_send\<close> hands to the ioctl: the caller's flags, with
  \<^verbatim>\<open>OMIT_STREAM_HEADER\<close> added unless this is the first subvolume and
  \<^verbatim>\<open>OMIT_END_CMD\<close> added unless it is the last.
\<close>

definition do_send_args ::
  "btrfs_send \<Rightarrow> u64 \<Rightarrow> bool \<Rightarrow> bool \<Rightarrow> send_flag set \<Rightarrow> btrfs_ioctl_send_args" where
  "do_send_args s parent_root_id is_first_subvol is_last_subvol flags =
     \<lparr>io_clone_sources = clone_sources s,
      io_parent_root = parent_root_id,
      io_flags = flags
        \<union> (if \<not> is_first_subvol then {BTRFS_SEND_FLAG_OMIT_STREAM_HEADER} else {})
        \<union> (if \<not> is_last_subvol then {BTRFS_SEND_FLAG_OMIT_END_CMD} else {})\<rparr>"

text \<open>
  The two places where \<^verbatim>\<open>do_send\<close> goes to \<^verbatim>\<open>out\<close> with the thread created
  and not joined: after a failed ioctl and after a failed \<^verbatim>\<open>pthread_join\<close>. It closes
  its descriptors and returns \<open>f\<close>, and \<^verbatim>\<open>cmd_send\<close> returns in turn; the thread, if
  it has not returned, runs on beside them for the reads \<open>rs\<close> until the process ends.
  If it reaches \<^verbatim>\<open>exit\<close> in that time, the process ends there with the thread's
  status. The end of the process is placed between two iterations of the thread's loop:
  an end inside an iteration, with part of a chunk written, differs only in the bytes of
  that chunk on the dump stream, has the same failed calls and the same send ioctls, and
  is not told apart.
\<close>

definition leave_unjoined ::
  "failure \<Rightarrow> thread_status option \<Rightarrow> read_outcome list \<Rightarrow> world \<Rightarrow> (failure + unit) \<times> world" where
  "leave_unjoined f st rs w =
     (case st of
        Some returned \<Rightarrow> (Inl f, w)
      | None \<Rightarrow>
          (case dump_thread rs w of
             (Some (Thread_exit c), w') \<Rightarrow> (Inl (Exit_proc c), w')
           | (st', w') \<Rightarrow> (Inl f, w')))"

text \<open>
  \<^verbatim>\<open>do_send\<close>. The thread is created before the ioctl and runs beside it. If it
  reaches \<^verbatim>\<open>exit\<close> while the ioctl is in progress the process ends there, before the
  ioctl returns. Otherwise the ioctl returns: on an error \<^verbatim>\<open>do_send\<close> goes to
  \<^verbatim>\<open>out\<close> without joining the thread; on success it closes the write end of the pipe
  and joins the thread, which runs to its end. \<^verbatim>\<open>dump_thread\<close> returns only 0, so the
  branch for a \<^verbatim>\<open>t_err\<close> that is not \<^verbatim>\<open>NULL\<close> is never taken.
\<close>

definition do_send ::
  "env \<Rightarrow> btrfs_send \<Rightarrow> u64 \<Rightarrow> bool \<Rightarrow> bool \<Rightarrow> string \<Rightarrow> send_flag set \<Rightarrow> world \<Rightarrow>
   (failure + unit) \<times> world" where
  "do_send E s parent_root_id is_first_subvol is_last_subvol subvol flags w =
     (case open_errno E subvol of
        Some e \<Rightarrow> (Inl (Fail (- e)), w)
      | None \<Rightarrow>
     (case pipe_errno E subvol of
        Some e \<Rightarrow> (Inl (Fail (- e)), w)
      | None \<Rightarrow>
     (case pthread_create_err E subvol of
        Some e \<Rightarrow> (Inl (Fail (- e)), w)
      | None \<Rightarrow>
     (let io_send = do_send_args s parent_root_id is_first_subvol is_last_subvol flags;
          g = ioctl_send E subvol io_send;
          w0 = w\<lparr>calls := calls w @ [Sys_send subvol io_send]\<rparr>
      in case dump_thread (reads_during g) w0 of
           (Some (Thread_exit c), w1) \<Rightarrow> (Inl (Exit_proc c), w1)
         | (st1, w1) \<Rightarrow>
     (let w2 = w1\<lparr>calls := calls w1 @ [Sys_send_ret (ioctl_errno g)]\<rparr>
      in case ioctl_errno g of
        Some e \<Rightarrow> leave_unjoined (Fail (- e)) st1 (reads_after g) w2
      | None \<Rightarrow>
     (case pthread_join_err E subvol of
        Some e \<Rightarrow> leave_unjoined (Fail (- e)) st1 (reads_after g) w2
      | None \<Rightarrow>
     (case (case st1 of Some st \<Rightarrow> (st, w2) | None \<Rightarrow> dump_thread_closed (reads_after g) w2) of
        (Thread_exit c, w3) \<Rightarrow> (Inl (Exit_proc c), w3)
      | (Thread_return t_err, w3) \<Rightarrow>
          if t_err \<noteq> 0 then (Inl (Fail t_err), w3) else (Inr (), w3))))))))"

section \<open>The command\<close>

definition is_subvol_ro :: "env \<Rightarrow> btrfs_send \<Rightarrow> string \<Rightarrow> int + bool" where
  "is_subvol_ro E s subvol =
     (case open_errno E subvol of
        Some e \<Rightarrow> Inl (- e)
      | None \<Rightarrow>
          (case subvol_getflags E subvol of
             Inl e \<Rightarrow> Inl (- e)
           | Inr flags \<Rightarrow> Inr (BTRFS_SUBVOL_RDONLY \<in> flags)))"

definition init_root_path :: "env \<Rightarrow> btrfs_send \<Rightarrow> string \<Rightarrow> int + btrfs_send" where
  "init_root_path E s subvol =
     (if root_path s \<noteq> None then Inr s
      else (case find_mount_root E subvol of
              (ret, root) \<Rightarrow>
                if ret < 0 then Inl (- EINVAL)
                else if ret > 0 then Inl (- EINVAL)
                else (case open_errno E root of
                        Some e \<Rightarrow> Inl (- e)
                      | None \<Rightarrow>
                          (case subvol_uuid_search_init E root of
                             Inl r \<Rightarrow> Inl r
                           | Inr reg \<Rightarrow> Inr (s\<lparr>root_path := Some root, sus := reg\<rparr>)))))"

text \<open>
  The variables of \<^verbatim>\<open>cmd_send\<close> that live across its loops (\<open>root_id_var\<close> is the
  variable \<^verbatim>\<open>root_id\<close>). Messages on the standard error stream, and with them the
  verbosity counter, are left out.
\<close>

record cmd_send_vars =
  send :: btrfs_send
  outname :: string
  snapshot_parent :: "string option"
  root_id_var :: u64
  parent_root_id :: u64
  full_send :: bool
  new_end_cmd_semantic :: bool
  send_flags :: "send_flag set"

text \<open>
  The command line as \<^verbatim>\<open>getopt_long\<close> reads it with \<^verbatim>\<open>"vec:f:i:p:"\<close> and
  \<^verbatim>\<open>--no-data\<close>: the options in order (\<open>Opt_invalid\<close> is its answer \<^verbatim>\<open>'?'\<close>),
  then the subvolume arguments \<^verbatim>\<open>argv[optind .. argc - 1]\<close>.
\<close>

datatype opt =
  Opt_v | Opt_e | Opt_c string | Opt_f string | Opt_p string | Opt_i string
  | Opt_no_data | Opt_invalid

definition root_path_str :: "btrfs_send \<Rightarrow> string" where
  "root_path_str s = (case root_path s of None \<Rightarrow> [] | Some p \<Rightarrow> p)"

fun cmd_send_opt :: "env \<Rightarrow> cmd_send_vars \<Rightarrow> opt \<Rightarrow> int + cmd_send_vars" where
  "cmd_send_opt E v Opt_v = Inr v"
| "cmd_send_opt E v Opt_e = Inr (v\<lparr>new_end_cmd_semantic := True\<rparr>)"
| "cmd_send_opt E v (Opt_c optarg) =
     (case realpath E optarg of
        Inl e \<Rightarrow> Inl (- e)
      | Inr subvol \<Rightarrow>
     (case init_root_path E (send v) subvol of
        Inl r \<Rightarrow> Inl r
      | Inr s1 \<Rightarrow>
     (case get_root_id s1 (subvol_strip_mountpoint E (root_path_str s1) subvol) of
        Inl r \<Rightarrow> Inl r
      | Inr rid \<Rightarrow>
     (case is_subvol_ro E s1 subvol of
        Inl r \<Rightarrow> Inl r
      | Inr ro \<Rightarrow>
          if \<not> ro then Inl (- EINVAL)
          else (case add_clone_source E s1 rid of
                  (Inl r, s2) \<Rightarrow> Inl r
                | (Inr u, s2) \<Rightarrow>
                    Inr (v\<lparr>send := s2\<lparr>root_path := None, sus := []\<rparr>,
                           root_id_var := rid, full_send := False\<rparr>))))))"
| "cmd_send_opt E v (Opt_f optarg) =
     (if arg_copy_path E optarg then Inl 1 else Inr (v\<lparr>outname := optarg\<rparr>))"
| "cmd_send_opt E v (Opt_p optarg) =
     (if snapshot_parent v \<noteq> None then Inl 1
      else (case realpath E optarg of
              Inl e \<Rightarrow> Inl (- e)
            | Inr sp \<Rightarrow>
                (case is_subvol_ro E (send v) sp of
                   Inl r \<Rightarrow> Inl r
                 | Inr ro \<Rightarrow>
                     if \<not> ro then Inl (- EINVAL)
                     else Inr (v\<lparr>snapshot_parent := Some sp, full_send := False\<rparr>))))"
| "cmd_send_opt E v (Opt_i optarg) = Inl 1"
| "cmd_send_opt E v Opt_no_data =
     Inr (v\<lparr>send_flags := send_flags v \<union> {BTRFS_SEND_FLAG_NO_FILE_DATA}\<rparr>)"
| "cmd_send_opt E v Opt_invalid = Inl 1"

fun cmd_send_opts :: "env \<Rightarrow> cmd_send_vars \<Rightarrow> opt list \<Rightarrow> int + cmd_send_vars" where
  "cmd_send_opts E v [] = Inr v"
| "cmd_send_opts E v (x # xs) =
     (case cmd_send_opt E v x of
        Inl r \<Rightarrow> Inl r
      | Inr v' \<Rightarrow> cmd_send_opts E v' xs)"

text \<open>
  From the end of the option loop to the first loop over the subvolumes: the output file,
  the terminal check, the mount root of the first subvolume and the explicit parent.
\<close>

definition cmd_send_prepare :: "env \<Rightarrow> cmd_send_vars \<Rightarrow> string list \<Rightarrow> failure + cmd_send_vars" where
  "cmd_send_prepare E v args =
     (case args of
        [] \<Rightarrow> Inl Usage
      | a # as \<Rightarrow>
     (case (if outname v \<noteq> [] then creat_errno E (outname v) else None) of
        Some e \<Rightarrow> Inl (Fail (- e))
      | None \<Rightarrow>
          if isatty E (outname v) then Inl (Fail 1)
          else
     (case realpath E a of
        Inl e \<Rightarrow> Inl (Fail (- e))
      | Inr subvol \<Rightarrow>
     (case init_root_path E (send v) subvol of
        Inl r \<Rightarrow> Inl (Fail r)
      | Inr s1 \<Rightarrow>
     (case snapshot_parent v of
        None \<Rightarrow> Inr (v\<lparr>send := s1\<rparr>)
      | Some sp \<Rightarrow>
     (case get_root_id s1 (subvol_strip_mountpoint E (root_path_str s1) sp) of
        Inl r \<Rightarrow> Inl (Fail r)
      | Inr rid \<Rightarrow>
     (case add_clone_source E s1 rid of
        (Inl r, s2) \<Rightarrow> Inl (Fail r)
      | (Inr u, s2) \<Rightarrow> Inr (v\<lparr>send := s2, parent_root_id := rid\<rparr>))))))))"

text \<open>The first loop over the subvolumes: same filesystem, read-only.\<close>

fun check_subvols :: "env \<Rightarrow> btrfs_send \<Rightarrow> string list \<Rightarrow> int + unit" where
  "check_subvols E s [] = Inr ()"
| "check_subvols E s (a # as) =
     (case realpath E a of
        Inl e \<Rightarrow> Inl (- e)
      | Inr subvol \<Rightarrow>
          (case find_mount_root E subvol of
             (ret, mount_root) \<Rightarrow>
               if ret < 0 then Inl ret
               else if ret > 0 then Inl (- EINVAL)
               else if root_path_str s \<noteq> mount_root then Inl (- EINVAL)
               else (case is_subvol_ro E s subvol of
                       Inl r \<Rightarrow> Inl r
                     | Inr ro \<Rightarrow>
                         if \<not> ro then Inl (- EINVAL)
                         else check_subvols E s as)))"

text \<open>
  The system changes while the command runs: a path that resolved in the first loop may be
  gone in the second, a subvolume found read-only may have been made writable. The second
  loop therefore asks the system as it is at the moment of each step, and a run is given
  a system for every moment: \<open>At_setup\<close> for the options, the preparation and the first
  loop (no property below depends on a change between them), and for the pass \<open>i\<close> of the
  second loop the moments of its \<^verbatim>\<open>realpath\<close>, of \<^verbatim>\<open>is_subvol_ro\<close>, of
  \<^verbatim>\<open>do_send\<close> and of \<^verbatim>\<open>add_clone_source\<close>.
\<close>

datatype moment = At_setup | At_resolve nat | At_ro_check nat | At_send nat | At_add nat

type_synonym timeline = "moment \<Rightarrow> env"

text \<open>
  One pass of the second loop, for the argument \<open>a\<close> at position \<open>i\<close> of \<open>n\<close>
  (\<open>i = 0\<close> is \<^verbatim>\<open>i == optind\<close> and \<open>i = n - 1\<close> is \<^verbatim>\<open>i == argc - 1\<close>).
\<close>

definition send_subvol ::
  "timeline \<Rightarrow> cmd_send_vars \<Rightarrow> nat \<Rightarrow> nat \<Rightarrow> string \<Rightarrow> world \<Rightarrow>
   (failure + cmd_send_vars) \<times> world" where
  "send_subvol T v n i a w =
     (case realpath (T (At_resolve i)) a of
        Inl e \<Rightarrow> (Inl (Fail (- e)), w)
      | Inr subvol \<Rightarrow>
     (case (if \<not> full_send v \<and> parent_root_id v = 0
            then (case find_good_parent (send v) (root_id_var v) of
                    Inl r \<Rightarrow> Inl r
                  | Inr found \<Rightarrow> Inr (v\<lparr>parent_root_id := found\<rparr>))
            else Inr v) of
        Inl r \<Rightarrow> (Inl (Fail r), w)
      | Inr v1 \<Rightarrow>
     (case is_subvol_ro (T (At_ro_check i)) (send v1) subvol of
        Inl r \<Rightarrow> (Inl (Fail r), w)
      | Inr ro \<Rightarrow>
          if \<not> ro then (Inl (Fail (- EINVAL)), w)
          else
     (let is_first_subvol = (if new_end_cmd_semantic v1 then i = 0 else True);
          is_last_subvol = (if new_end_cmd_semantic v1 then i = n - 1 else True)
      in case do_send (T (At_send i)) (send v1) (parent_root_id v1) is_first_subvol
                is_last_subvol subvol (send_flags v1) w of
           (Inl f, w') \<Rightarrow> (Inl f, w')
         | (Inr u, w') \<Rightarrow>
     (case (if \<not> full_send v1 then add_clone_source (T (At_add i)) (send v1) (root_id_var v1)
            else (Inr (), send v1)) of
        (Inl r, s') \<Rightarrow> (Inl (Fail r), w')
      | (Inr u', s') \<Rightarrow> (Inr (v1\<lparr>send := s', parent_root_id := 0\<rparr>), w'))))))"

fun send_subvols ::
  "timeline \<Rightarrow> cmd_send_vars \<Rightarrow> nat \<Rightarrow> nat \<Rightarrow> string list \<Rightarrow> world \<Rightarrow>
   (failure + cmd_send_vars) \<times> world" where
  "send_subvols T v n i [] w = (Inr v, w)"
| "send_subvols T v n i (a # as) w =
     (case send_subvol T v n i a w of
        (Inl f, w') \<Rightarrow> (Inl f, w')
      | (Inr v', w') \<Rightarrow> send_subvols T v' n (Suc i) as w')"

definition cmd_send_init :: cmd_send_vars where
  "cmd_send_init =
     \<lparr>send = \<lparr>clone_sources = [], root_path = None, sus = []\<rparr>,
      outname = [], snapshot_parent = None, root_id_var = 0, parent_root_id = 0,
      full_send = True, new_end_cmd_semantic = False, send_flags = {}\<rparr>"

text \<open>
  \<^verbatim>\<open>cmd_send\<close> up to its second loop: the options, the preparation and the first loop
  over the subvolumes. None of it writes to \<^verbatim>\<open>dump_fd\<close>.
\<close>

definition cmd_send_setup :: "env \<Rightarrow> opt list \<Rightarrow> string list \<Rightarrow> failure + cmd_send_vars" where
  "cmd_send_setup E opts args =
     (case cmd_send_opts E cmd_send_init opts of
        Inl r \<Rightarrow> Inl (Fail r)
      | Inr v1 \<Rightarrow>
     (case cmd_send_prepare E v1 args of
        Inl f \<Rightarrow> Inl f
      | Inr v2 \<Rightarrow>
     (case check_subvols E (send v2) args of
        Inl r \<Rightarrow> Inl (Fail r)
      | Inr u \<Rightarrow> Inr v2)))"

text \<open>The \<^verbatim>\<open>printf\<close> between the two loops; it goes to the standard output stream.\<close>

definition announce_mode :: "cmd_send_vars \<Rightarrow> world \<Rightarrow> world" where
  "announce_mode v w =
     (if BTRFS_SEND_FLAG_NO_FILE_DATA \<in> send_flags v
      then w\<lparr>stdout_text := stdout_text w @ ''Mode NO_FILE_DATA enabled'' @ [CHR 0x0A]\<rparr>
      else w)"

text \<open>
  \<^verbatim>\<open>cmd_send\<close> up to the label \<^verbatim>\<open>out\<close>: the failure with which it gets there, or
  \<open>Inr ()\<close> for \<^verbatim>\<open>ret = 0\<close>. After the label it frees memory, closes the mount
  descriptor and returns.
\<close>

definition cmd_send ::
  "timeline \<Rightarrow> opt list \<Rightarrow> string list \<Rightarrow> world \<Rightarrow> (failure + unit) \<times> world" where
  "cmd_send T opts args w =
     (case cmd_send_setup (T At_setup) opts args of
        Inl f \<Rightarrow> (Inl f, w)
      | Inr v \<Rightarrow>
          (case send_subvols T v (length args) 0 args (announce_mode v w) of
             (Inl f, w') \<Rightarrow> (Inl f, w')
           | (Inr v', w') \<Rightarrow> (Inr (), w')))"

text \<open>
  What the process hands back: \<^verbatim>\<open>return !!ret\<close>, or the status given to
  \<^verbatim>\<open>exit\<close>; \<open>None\<close> stands for the exit inside \<^verbatim>\<open>usage\<close>, whose status
  \<^verbatim>\<open>help.c\<close> chooses.
\<close>

fun cmd_send_status :: "failure + unit \<Rightarrow> int option" where
  "cmd_send_status (Inr u) = Some 0"
| "cmd_send_status (Inl (Fail ret)) = Some (if ret \<noteq> 0 then 1 else 0)"
| "cmd_send_status (Inl (Exit_proc c)) = Some c"
| "cmd_send_status (Inl Usage) = None"

section \<open>The properties, in the spec's words\<close>

text \<open>
  The siblings of the target among the clone sources: those whose own recorded ancestor has
  the root id of the target's ancestor \<open>parent\<close>, in the order of the array.
\<close>

definition is_sibling :: "btrfs_send \<Rightarrow> subvol_info \<Rightarrow> u64 \<Rightarrow> bool" where
  "is_sibling s parent c =
     (case get_parent s c of None \<Rightarrow> False | Some p2 \<Rightarrow> root_id p2 = root_id parent)"

definition siblings_of :: "btrfs_send \<Rightarrow> subvol_info \<Rightarrow> u64 list" where
  "siblings_of s parent = filter (is_sibling s parent) (clone_sources s)"

definition ctransid_distance :: "btrfs_send \<Rightarrow> subvol_info \<Rightarrow> u64 \<Rightarrow> int" where
  "ctransid_distance s parent c =
     (case subvol_uuid_search (sus s) c 0 0 [] subvol_search_by_root_id of
        None \<Rightarrow> 0
      | Some si \<Rightarrow> \<bar>uint (ctransid si) - uint (ctransid parent)\<bar>)"

text \<open>
  \<open>ctransid_distance\<close> is the absolute difference of the two creation transaction ids as
  numbers; \<open>ctransid_diff\<close> is what the loop computes in 64 bits and \<open>scan_diff\<close> that value
  for a clone source; \<open>scan_finish\<close> is the end of the loop.
\<close>

definition ctransid_diff :: "u64 \<Rightarrow> u64 \<Rightarrow> u64" where
  "ctransid_diff a b = (let tmp = a - b in if tmp <s 0 then tmp * (- 1) else tmp)"

definition scan_diff :: "btrfs_send \<Rightarrow> subvol_info \<Rightarrow> u64 \<Rightarrow> u64" where
  "scan_diff s parent c =
     (case subvol_uuid_search (sus s) c 0 0 [] subvol_search_by_root_id of
        None \<Rightarrow> 0
      | Some si \<Rightarrow> ctransid_diff (ctransid si) (ctransid parent))"

definition scan_finish :: "subvol_info option \<Rightarrow> int + u64" where
  "scan_finish best = (case best of None \<Rightarrow> Inl (- ENOENT) | Some b \<Rightarrow> Inr (root_id b))"

text \<open>
  Position \<open>i\<close> holds the first of the smallest values of \<open>d\<close> in \<open>xs\<close>: no element
  has a smaller value, and every earlier element has a larger one.
\<close>

definition first_least :: "('a \<Rightarrow> 'b::linorder) \<Rightarrow> 'a list \<Rightarrow> nat \<Rightarrow> bool" where
  "first_least d xs i \<longleftrightarrow>
     i < length xs \<and> (\<forall>j < length xs. d (xs ! i) \<le> d (xs ! j)) \<and> (\<forall>j < i. d (xs ! i) < d (xs ! j))"

text \<open>
  For the drain thread: the system calls made between two states of the process, those among
  them that returned an error (a \<^verbatim>\<open>write\<close> that returned 0 counts), the bytes a
  \<^verbatim>\<open>read\<close> delivered, and the reads among a list of system calls, in order, each with
  what it returned.
\<close>

fun failed_call :: "syscall \<Rightarrow> bool" where
  "failed_call (Sys_read (RErr e)) = True"
| "failed_call (Sys_read (RData b)) = False"
| "failed_call (Sys_write (Inl e)) = True"
| "failed_call (Sys_write (Inr n)) = (n = 0)"
| "failed_call (Sys_send p io) = False"
| "failed_call (Sys_send_ret r) = (r \<noteq> None)"

fun read_bytes :: "read_outcome \<Rightarrow> byte list" where
  "read_bytes (RErr e) = []"
| "read_bytes (RData b) = b"

definition new_calls :: "world \<Rightarrow> world \<Rightarrow> syscall list" where
  "new_calls w w' = drop (length (calls w)) (calls w')"

fun reads_of :: "syscall list \<Rightarrow> read_outcome list" where
  "reads_of [] = []"
| "reads_of (Sys_read r # cs) = r # reads_of cs"
| "reads_of (Sys_write r # cs) = reads_of cs"
| "reads_of (Sys_send p io # cs) = reads_of cs"
| "reads_of (Sys_send_ret r # cs) = reads_of cs"

text \<open>
  The stream as the pipe serves it, read by read. A chunk is a read that delivers bytes;
  \<open>chunks_read\<close> are the chunks before the first read that is an error or of length zero,
  and \<open>end_of_reads\<close> says how a pump that forwards every chunk ends on that read: by
  \<^verbatim>\<open>exit\<close> with the error number of a failed read, by returning 0 on a read of
  length zero, and not at all when no such read is served. A sink takes every chunk when
  none of its coming writes returns an error or 0 (it may still take a chunk in pieces).
\<close>

fun is_chunk :: "read_outcome \<Rightarrow> bool" where
  "is_chunk (RErr e) = False"
| "is_chunk (RData b) = (b \<noteq> [])"

definition chunks_read :: "read_outcome list \<Rightarrow> read_outcome list" where
  "chunks_read rs = takeWhile is_chunk rs"

definition end_of_reads :: "read_outcome list \<Rightarrow> thread_status option" where
  "end_of_reads rs =
     (case dropWhile is_chunk rs of
        [] \<Rightarrow> None
      | RErr e # rest \<Rightarrow> Some (Thread_exit e)
      | RData b # rest \<Rightarrow> Some (Thread_return 0))"

fun accepting :: "write_outcome \<Rightarrow> bool" where
  "accepting (WErr e) = False"
| "accepting (WAccept n) = (0 < n)"

definition sink_accepts :: "world \<Rightarrow> bool" where
  "sink_accepts w = list_all accepting (wscript w)"

text \<open>
  The send ioctls among a list of system calls, in order, each with the subvolume it was
  made on.
\<close>

fun sends_of :: "syscall list \<Rightarrow> (string \<times> btrfs_ioctl_send_args) list" where
  "sends_of [] = []"
| "sends_of (Sys_send p io # cs) = (p, io) # sends_of cs"
| "sends_of (Sys_read r # cs) = sends_of cs"
| "sends_of (Sys_write r # cs) = sends_of cs"
| "sends_of (Sys_send_ret r # cs) = sends_of cs"

text \<open>
  The flags of the spec for the item at position \<open>i\<close> of \<open>n\<close>: the session's flags, the
  header omitted on every item but the first and the end command on every item but the last
  when the extended framing is on.
\<close>

definition item_flags :: "cmd_send_vars \<Rightarrow> nat \<Rightarrow> nat \<Rightarrow> send_flag set" where
  "item_flags v n i =
     send_flags v
       \<union> (if new_end_cmd_semantic v \<and> i \<noteq> 0 then {BTRFS_SEND_FLAG_OMIT_STREAM_HEADER} else {})
       \<union> (if new_end_cmd_semantic v \<and> i \<noteq> n - 1 then {BTRFS_SEND_FLAG_OMIT_END_CMD} else {})"

text \<open>
  The paths that the options \<^verbatim>\<open>-c\<close> and \<^verbatim>\<open>-p\<close> name, and what it is for a path to
  refer to a writable subvolume: it resolves, and its flags are read and lack
  \<^verbatim>\<open>BTRFS_SUBVOL_RDONLY\<close>.
\<close>

fun opt_paths :: "opt \<Rightarrow> string list" where
  "opt_paths (Opt_c p) = [p]"
| "opt_paths (Opt_p p) = [p]"
| "opt_paths x = []"

definition is_writable :: "env \<Rightarrow> string \<Rightarrow> bool" where
  "is_writable E p =
     (case realpath E p of
        Inl e \<Rightarrow> False
      | Inr subvol \<Rightarrow>
          (case subvol_getflags E subvol of
             Inl e \<Rightarrow> False
           | Inr flags \<Rightarrow> BTRFS_SUBVOL_RDONLY \<notin> flags))"

text \<open>
  The steps of the pass of the second loop for an item, each said of the system and not of
  what the code makes of it.
  \<^item> The parent of the item: the one the command holds, or the one searched for when the
    send is incremental and none is held.
  \<^item> The read-only check passes: the subvolume opens and its flags are read and hold
    \<^verbatim>\<open>BTRFS_SUBVOL_RDONLY\<close>.
  \<^item> The drain thread fails: on the reads that the outcome of the ioctl serves it, in
    order, it ends by \<^verbatim>\<open>exit\<close>.
  \<^item> The send fails: the subvolume does not open, the pipe or the thread cannot be made,
    the ioctl returns an error, the thread cannot be joined, or the drain thread fails.
  \<^item> A step of the pass for the argument \<open>a\<close> fails: the path does not resolve; the
    parent, when it has to be searched, is not found; the read-only check does not pass;
    the send fails; or the clone-source array cannot grow.
\<close>

definition item_parent :: "cmd_send_vars \<Rightarrow> int + u64" where
  "item_parent v =
     (if \<not> full_send v \<and> parent_root_id v = 0
      then find_good_parent (send v) (root_id_var v)
      else Inr (parent_root_id v))"

definition checked_read_only :: "env \<Rightarrow> string \<Rightarrow> bool" where
  "checked_read_only E subvol \<longleftrightarrow>
     open_errno E subvol = None \<and>
     (case subvol_getflags E subvol of
        Inl e \<Rightarrow> False
      | Inr flags \<Rightarrow> BTRFS_SUBVOL_RDONLY \<in> flags)"

definition drain_fails :: "send_ioctl_result \<Rightarrow> world \<Rightarrow> bool" where
  "drain_fails g w \<longleftrightarrow>
     (case fst (dump_thread (reads_during g @ reads_after g) w) of
        Some (Thread_exit c) \<Rightarrow> True
      | other \<Rightarrow> False)"

definition send_fails :: "env \<Rightarrow> string \<Rightarrow> btrfs_ioctl_send_args \<Rightarrow> world \<Rightarrow> bool" where
  "send_fails E subvol io w \<longleftrightarrow>
     open_errno E subvol \<noteq> None \<or> pipe_errno E subvol \<noteq> None \<or>
     pthread_create_err E subvol \<noteq> None \<or>
     ioctl_errno (ioctl_send E subvol io) \<noteq> None \<or>
     pthread_join_err E subvol \<noteq> None \<or>
     drain_fails (ioctl_send E subvol io) w"

definition item_step_fails ::
  "timeline \<Rightarrow> cmd_send_vars \<Rightarrow> nat \<Rightarrow> nat \<Rightarrow> string \<Rightarrow> world \<Rightarrow> bool" where
  "item_step_fails T v n i a w =
     (case realpath (T (At_resolve i)) a of
        Inl e \<Rightarrow> True
      | Inr subvol \<Rightarrow>
          (case item_parent v of
             Inl r \<Rightarrow> True
           | Inr pr \<Rightarrow>
               \<not> checked_read_only (T (At_ro_check i)) subvol \<or>
               send_fails (T (At_send i)) subvol
                 (do_send_args (send v) pr (new_end_cmd_semantic v \<longrightarrow> i = 0)
                    (new_end_cmd_semantic v \<longrightarrow> i = n - 1) (send_flags v)) w \<or>
               (\<not> full_send v \<and>
                realloc_fails (T (At_add i)) (length (clone_sources (send v)) + 1))))"

section \<open>Example inputs\<close>

text \<open>
  A filesystem with the subvolume \<open>base\<close> (created in transaction 100), three snapshots of
  it created in transactions 90, 150 and 101, and the snapshot to send.
\<close>

definition reg_example :: sus_t where
  "reg_example =
     [\<lparr>root_id = 256, uuid = 10, parent_uuid = 0, ctransid = 100, path = ''base''\<rparr>,
      \<lparr>root_id = 257, uuid = 11, parent_uuid = 10, ctransid = 90, path = ''s90''\<rparr>,
      \<lparr>root_id = 258, uuid = 12, parent_uuid = 10, ctransid = 150, path = ''s150''\<rparr>,
      \<lparr>root_id = 259, uuid = 13, parent_uuid = 10, ctransid = 101, path = ''s101''\<rparr>,
      \<lparr>root_id = 260, uuid = 14, parent_uuid = 10, ctransid = 120, path = ''target''\<rparr>]"

definition send_example :: btrfs_send where
  "send_example = \<lparr>clone_sources = [257, 258, 259], root_path = None, sus = reg_example\<rparr>"

text \<open>The same shape with creation transaction ids above \<open>2^63\<close>.\<close>

definition reg_far :: sus_t where
  "reg_far =
     [\<lparr>root_id = 256, uuid = 10, parent_uuid = 0, ctransid = 0, path = ''base''\<rparr>,
      \<lparr>root_id = 257, uuid = 11, parent_uuid = 10, ctransid = 9223372036854775813, path = ''x''\<rparr>,
      \<lparr>root_id = 258, uuid = 12, parent_uuid = 10, ctransid = 9223372036854775807, path = ''y''\<rparr>,
      \<lparr>root_id = 260, uuid = 14, parent_uuid = 10, ctransid = 7, path = ''target''\<rparr>]"

definition send_far :: btrfs_send where
  "send_far = \<lparr>clone_sources = [257, 258], root_path = None, sus = reg_far\<rparr>"

text \<open>A sink whose first \<^verbatim>\<open>write\<close> takes a single byte.\<close>

definition world_example :: world where
  "world_example = \<lparr>dumped = [], wscript = [WAccept 1], stdout_text = [], calls = []\<rparr>"

text \<open>A sink that is full: its first \<^verbatim>\<open>write\<close> fails with \<^verbatim>\<open>ENOSPC\<close> (28).\<close>

definition world_full :: world where
  "world_full = \<lparr>dumped = [], wscript = [WErr 28], stdout_text = [], calls = []\<rparr>"

text \<open>
  A filesystem mounted on \<open>/mnt\<close> with the read-only subvolumes \<open>P\<close>, its snapshot
  \<open>S1\<close>, the snapshot \<open>S2\<close> of \<open>S1\<close>, and the writable snapshot \<open>W\<close> of \<open>P\<close>. No
  system call fails, and every send ioctl succeeds after the drain thread has read one byte,
  leaving one more in the pipe.
\<close>

definition fs_example :: sus_t where
  "fs_example =
     [\<lparr>root_id = 256, uuid = 10, parent_uuid = 0, ctransid = 100, path = ''P''\<rparr>,
      \<lparr>root_id = 257, uuid = 11, parent_uuid = 10, ctransid = 110, path = ''S1''\<rparr>,
      \<lparr>root_id = 258, uuid = 12, parent_uuid = 11, ctransid = 120, path = ''S2''\<rparr>,
      \<lparr>root_id = 259, uuid = 13, parent_uuid = 10, ctransid = 130, path = ''W''\<rparr>]"

definition env_example :: env where
  "env_example =
     \<lparr>realpath = (\<lambda>p. Inr p),
      find_mount_root = (\<lambda>p. (0, ''/mnt'')),
      open_errno = (\<lambda>p. None),
      subvol_uuid_search_init = (\<lambda>p. Inr fs_example),
      subvol_strip_mountpoint = (\<lambda>m p. drop (Suc (length m)) p),
      subvol_getflags = (\<lambda>p. Inr (if p = ''/mnt/W'' then {} else {BTRFS_SUBVOL_RDONLY})),
      realloc_fails = (\<lambda>n. False),
      arg_copy_path = (\<lambda>p. False),
      creat_errno = (\<lambda>p. None),
      isatty = (\<lambda>p. False),
      pipe_errno = (\<lambda>p. None),
      pthread_create_err = (\<lambda>p. None),
      ioctl_send = (\<lambda>p io. \<lparr>ioctl_errno = None, reads_during = [RData [1]],
                                reads_after = [RData [2]]\<rparr>),
      pthread_join_err = (\<lambda>p. None)\<rparr>"

definition world_init :: world where
  "world_init = \<lparr>dumped = [], wscript = [], stdout_text = [], calls = []\<rparr>"



definition env_ioctl_only :: env where
  "env_ioctl_only =
     env_example\<lparr>ioctl_send := (\<lambda>p io. \<lparr>ioctl_errno = Some 22, reads_during = [],
                                          reads_after = []\<rparr>)\<rparr>"


text \<open>
  A system that does not change during the run, and four that differ from the example at
  one moment of the pass for the second argument: its path no longer resolves; it has been
  made writable; its send ioctl fails with \<^verbatim>\<open>EINVAL\<close>; the read of what is left in
  the pipe after its ioctl fails with \<^verbatim>\<open>EIO\<close>. In the last one memory runs out
  when the first pass adds its clone source.
\<close>

definition steady :: "env \<Rightarrow> timeline" where
  "steady E = (\<lambda>m. E)"

definition timeline_gone :: timeline where
  "timeline_gone =
     (\<lambda>m. if m = At_resolve 1 then env_example\<lparr>realpath := (\<lambda>p. Inl ENOENT)\<rparr>
           else env_example)"

definition timeline_writable :: timeline where
  "timeline_writable =
     (\<lambda>m. if m = At_ro_check 1 then env_example\<lparr>subvol_getflags := (\<lambda>p. Inr {})\<rparr>
           else env_example)"

definition timeline_ioctl :: timeline where
  "timeline_ioctl = (\<lambda>m. if m = At_send 1 then env_ioctl_only else env_example)"

definition timeline_nomem :: timeline where
  "timeline_nomem =
     (\<lambda>m. if m = At_add 0 then env_example\<lparr>realloc_fails := (\<lambda>n. True)\<rparr>
           else env_example)"

definition timeline_drain :: timeline where
  "timeline_drain =
     (\<lambda>m. if m = At_send 1
           then env_example\<lparr>ioctl_send := (\<lambda>p io. \<lparr>ioctl_errno = None,
                  reads_during = [RData [1]], reads_after = [RErr 5]\<rparr>)\<rparr>
           else env_example)"

definition vars_full :: cmd_send_vars where
  "vars_full =
     cmd_send_init\<lparr>send := \<lparr>clone_sources = [], root_path = Some ''/mnt'', sus = fs_example\<rparr>\<rparr>"

definition world_after_P :: world where
  "world_after_P =
     \<lparr>dumped = [1, 2], wscript = [], stdout_text = [],
      calls = [Sys_send ''/mnt/P'' \<lparr>io_clone_sources = [], io_parent_root = 0, io_flags = {}\<rparr>,
               Sys_read (RData [1]), Sys_write (Inr 1), Sys_send_ret None,
               Sys_read (RData [2]), Sys_write (Inr 1), Sys_read (RData [])]\<rparr>"

text \<open>
  The variables of \<^verbatim>\<open>cmd_send\<close> for \<^verbatim>\<open>btrfs send -p /mnt/P /mnt/S1 /mnt/S2\<close>:
  after the options, at the start of the second loop, and after its first pass, with the
  state of the process then.
\<close>

definition vars_opt_p :: cmd_send_vars where
  "vars_opt_p = cmd_send_init\<lparr>snapshot_parent := Some ''/mnt/P'', full_send := False\<rparr>"

definition vars_p :: cmd_send_vars where
  "vars_p =
     cmd_send_init\<lparr>send := \<lparr>clone_sources = [256], root_path = Some ''/mnt'', sus = fs_example\<rparr>,
                   snapshot_parent := Some ''/mnt/P'', parent_root_id := 256,
                   full_send := False\<rparr>"

definition vars_p_after :: cmd_send_vars where
  "vars_p_after =
     vars_p\<lparr>send := \<lparr>clone_sources = [256, 0], root_path = Some ''/mnt'', sus = fs_example\<rparr>,
            parent_root_id := 0\<rparr>"

definition world_after_S1 :: world where
  "world_after_S1 =
     \<lparr>dumped = [1, 2], wscript = [], stdout_text = [],
      calls = [Sys_send ''/mnt/S1''
                 \<lparr>io_clone_sources = [256], io_parent_root = 256, io_flags = {}\<rparr>,
               Sys_read (RData [1]), Sys_write (Inr 1), Sys_send_ret None,
               Sys_read (RData [2]), Sys_write (Inr 1), Sys_read (RData [])]\<rparr>"

section \<open>Exact ancestry match\<close>

text \<open>
  C2. When the recorded ancestor of the target (the record whose uuid is the target's
  parent uuid) has its root id among the clone sources, \<^verbatim>\<open>find_good_parent\<close> returns
  that root id, whatever else the clone sources hold.
\<close>

theorem find_good_parent_exact_match:
  assumes "get_parent s rid = Some parent"
    and "root_id parent \<in> set (clone_sources s)"
  shows "find_good_parent s rid = Inr (root_id parent)"
  using assms by (simp add: find_good_parent_def)

theorem find_good_parent_exact_match_witness:
  "find_good_parent
     \<lparr>clone_sources = [257, 256, 259], root_path = None, sus = reg_example\<rparr> 260 = Inr 256"
proof -
  let ?s = "\<lparr>clone_sources = [257, 256, 259], root_path = None, sus = reg_example\<rparr>"
  have p: "get_parent ?s 260 = Some (reg_example ! 0)"
    by (simp add: get_parent_def reg_example_def)
  have m: "root_id (reg_example ! 0) \<in> set (clone_sources ?s)"
    by (simp add: reg_example_def)
  show ?thesis
    using find_good_parent_exact_match [OF p m] by (simp add: reg_example_def)
qed

section \<open>The closest sibling\<close>

lemma p64: "(2::int) ^ 64 = 2 * 2 ^ 63" "(0::int) < 2 ^ 63"
  by simp_all

lemma sint_neg_iff: "sint (t :: u64) < 0 \<longleftrightarrow> 2 ^ 63 \<le> uint t"
proof -
  have b: "0 \<le> uint t" "uint t < 2 ^ 64"
    using uint_bounded [of t] by simp_all
  have s: "sint t = (uint t + 2 ^ 63) mod 2 ^ 64 - 2 ^ 63"
    by (simp add: sint_uint signed_take_bit_eq_take_bit_shift take_bit_eq_mod)
  show ?thesis
  proof (cases "uint t < 2 ^ 63")
    case True
    with b p64 have "0 \<le> uint t + 2 ^ 63" "uint t + 2 ^ 63 < 2 ^ 64" by linarith+
    then have "(uint t + 2 ^ 63) mod 2 ^ 64 = uint t + 2 ^ 63"
      by (rule mod_pos_pos_trivial)
    with s True b show ?thesis by simp
  next
    case False
    have "(uint t + 2 ^ 63) mod 2 ^ 64 = (uint t + 2 ^ 63 - 2 ^ 64) mod 2 ^ 64"
      by (simp only: minus_mod_self2)
    also have "\<dots> = uint t + 2 ^ 63 - 2 ^ 64"
    proof -
      from False b p64 have "0 \<le> uint t + 2 ^ 63 - 2 ^ 64" "uint t + 2 ^ 63 - 2 ^ 64 < 2 ^ 64"
        by linarith+
      then show ?thesis by (rule mod_pos_pos_trivial)
    qed
    finally show ?thesis using s False b by simp
  qed
qed

lemma uint_sub_cases:
  fixes a b :: u64
  shows "uint (a - b) = (if uint b \<le> uint a then uint a - uint b else uint a - uint b + 2 ^ 64)"
proof -
  have ba: "0 \<le> uint a" "uint a < 2 ^ 64" using uint_bounded [of a] by simp_all
  have bb: "0 \<le> uint b" "uint b < 2 ^ 64" using uint_bounded [of b] by simp_all
  have u: "uint (a - b) = (uint a - uint b) mod 2 ^ 64"
    by (simp add: uint_word_ariths)
  show ?thesis
  proof (cases "uint b \<le> uint a")
    case True
    with ba bb p64 have "0 \<le> uint a - uint b" "uint a - uint b < 2 ^ 64" by linarith+
    then have "(uint a - uint b) mod 2 ^ 64 = uint a - uint b"
      by (rule mod_pos_pos_trivial)
    with u True show ?thesis by simp
  next
    case False
    have "(uint a - uint b) mod 2 ^ 64 = (uint a - uint b + 2 ^ 64) mod 2 ^ 64"
      by simp
    also have "\<dots> = uint a - uint b + 2 ^ 64"
    proof -
      from False ba bb p64 have "0 \<le> uint a - uint b + 2 ^ 64" "uint a - uint b + 2 ^ 64 < 2 ^ 64"
        by linarith+
      then show ?thesis by (rule mod_pos_pos_trivial)
    qed
    finally show ?thesis using u False by simp
  qed
qed

lemma ctransid_diff_uint:
  assumes "\<bar>uint a - uint b\<bar> < 2 ^ 63"
  shows "uint (ctransid_diff a b) = \<bar>uint a - uint b\<bar>"
proof (cases "uint b \<le> uint a")
  case True
  then have u: "uint (a - b) = uint a - uint b" by (simp add: uint_sub_cases)
  with assms True have "\<not> sint (a - b) < 0" by (simp add: sint_neg_iff)
  with u True show ?thesis by (simp add: ctransid_diff_def word_sless_alt)
next
  case False
  then have u: "uint (a - b) = uint a - uint b + 2 ^ 64" by (simp add: uint_sub_cases)
  with assms False have n: "sint (a - b) < 0" by (simp add: sint_neg_iff)
  have "(a - b) * (- 1) = b - a" by simp
  moreover from False have "uint (b - a) = uint b - uint a" by (simp add: uint_sub_cases)
  ultimately show ?thesis using n False by (simp add: ctransid_diff_def word_sless_alt)
qed

lemma search_by_root_id_root:
  "subvol_uuid_search r c u t p subvol_search_by_root_id = Some si \<Longrightarrow> root_id si = c"
  by (auto simp: find_Some_iff)

lemma sibling_search:
  "is_sibling s parent c \<Longrightarrow>
     \<exists>si. subvol_uuid_search (sus s) c 0 0 [] subvol_search_by_root_id = Some si \<and> root_id si = c"
  by (auto simp: is_sibling_def get_parent_def find_Some_iff split: option.splits)

lemma scan_skip:
  "\<not> is_sibling s parent c \<Longrightarrow>
     find_good_parent_scan s parent (c # cs) best bd = find_good_parent_scan s parent cs best bd"
  by (auto simp: is_sibling_def split: option.splits)

lemma scan_take:
  assumes "is_sibling s parent c"
    and "subvol_uuid_search (sus s) c 0 0 [] subvol_search_by_root_id = Some si"
  shows "find_good_parent_scan s parent (c # cs) best bd =
           (if scan_diff s parent c < bd
            then find_good_parent_scan s parent cs (Some si) (scan_diff s parent c)
            else find_good_parent_scan s parent cs best bd)"
  using assms
  by (auto simp: is_sibling_def scan_diff_def ctransid_diff_def Let_def split: option.splits)

lemma first_least_Cons_0:
  assumes "\<forall>x \<in> set xs. \<not> d x < d c"
  shows "first_least d (c # xs) 0"
  unfolding first_least_def
proof (intro conjI allI impI)
  fix j assume j: "j < length (c # xs)"
  show "d ((c # xs) ! 0) \<le> d ((c # xs) ! j)"
  proof (cases j)
    case 0 then show ?thesis by simp
  next
    case (Suc k)
    with j have "xs ! k \<in> set xs" by simp
    with assms have "\<not> d (xs ! k) < d c" by blast
    with Suc show ?thesis by simp
  qed
qed simp_all

lemma first_least_Cons_Suc:
  assumes "first_least d xs i" and "d (xs ! i) < d c"
  shows "first_least d (c # xs) (Suc i)"
  unfolding first_least_def
proof (intro conjI allI impI)
  from assms show "Suc i < length (c # xs)" by (simp add: first_least_def)
next
  fix j assume j: "j < length (c # xs)"
  show "d ((c # xs) ! Suc i) \<le> d ((c # xs) ! j)"
  proof (cases j)
    case 0 with assms show ?thesis by simp
  next
    case (Suc k) with j assms show ?thesis by (simp add: first_least_def)
  qed
next
  fix j assume j: "j < Suc i"
  show "d ((c # xs) ! Suc i) < d ((c # xs) ! j)"
  proof (cases j)
    case 0 with assms show ?thesis by simp
  next
    case (Suc k) with j assms show ?thesis by (simp add: first_least_def)
  qed
qed

lemma scan_none:
  "\<forall>c \<in> set (filter (is_sibling s parent) cs). \<not> scan_diff s parent c < bd \<Longrightarrow>
     find_good_parent_scan s parent cs best bd = scan_finish best"
proof (induction cs)
  case Nil
  show ?case by (simp add: scan_finish_def)
next
  case (Cons c cs)
  show ?case
  proof (cases "is_sibling s parent c")
    case False
    with Cons show ?thesis by (simp add: scan_skip del: find_good_parent_scan.simps)
  next
    case True
    from sibling_search [OF True] obtain si
      where si: "subvol_uuid_search (sus s) c 0 0 [] subvol_search_by_root_id = Some si" by blast
    from Cons.prems True have "\<not> scan_diff s parent c < bd" by simp
    with Cons True show ?thesis by (simp add: scan_take [OF True si] del: find_good_parent_scan.simps)
  qed
qed

lemma scan_some:
  "\<exists>c \<in> set (filter (is_sibling s parent) cs). scan_diff s parent c < bd \<Longrightarrow>
     \<exists>i. first_least (scan_diff s parent) (filter (is_sibling s parent) cs) i \<and>
         scan_diff s parent (filter (is_sibling s parent) cs ! i) < bd \<and>
         find_good_parent_scan s parent cs best bd = Inr (filter (is_sibling s parent) cs ! i)"
proof (induction cs arbitrary: best bd)
  case Nil
  then show ?case by simp
next
  case (Cons c cs)
  let ?sib = "is_sibling s parent"
  let ?d = "scan_diff s parent"
  let ?fs = "filter ?sib cs"
  show ?case
  proof (cases "?sib c")
    case False
    with Cons.prems have "\<exists>x \<in> set ?fs. ?d x < bd" by simp
    from Cons.IH [OF this, of best] False show ?thesis by (simp add: scan_skip del: find_good_parent_scan.simps)
  next
    case True
    from sibling_search [OF True] obtain si
      where si: "subvol_uuid_search (sus s) c 0 0 [] subvol_search_by_root_id = Some si"
        and rsi: "root_id si = c" by blast
    note step = scan_take [OF True si, of cs best bd]
    have fl: "filter ?sib (c # cs) = c # ?fs" using True by simp
    show ?thesis
    proof (cases "?d c < bd")
      case lt: True
      then have run: "find_good_parent_scan s parent (c # cs) best bd
                      = find_good_parent_scan s parent cs (Some si) (?d c)"
        using step by (simp del: find_good_parent_scan.simps)
      show ?thesis
      proof (cases "\<exists>x \<in> set ?fs. ?d x < ?d c")
        case False
        then have "find_good_parent_scan s parent cs (Some si) (?d c) = Inr c"
          using scan_none [of s parent cs "?d c" "Some si"] by (simp add: scan_finish_def rsi)
        moreover from False have "first_least ?d (c # ?fs) 0" by (intro first_least_Cons_0) blast
        ultimately show ?thesis unfolding fl using run lt by (intro exI [of _ 0]) simp
      next
        case True
        from Cons.IH [OF True, of "Some si"] obtain i where i: "first_least ?d ?fs i"
          and l: "?d (?fs ! i) < ?d c"
          and r: "find_good_parent_scan s parent cs (Some si) (?d c) = Inr (?fs ! i)"
          by blast
        from first_least_Cons_Suc [OF i l] l lt r run show ?thesis
          unfolding fl by (intro exI [of _ "Suc i"]) simp
      qed
    next
      case ge: False
      then have run: "find_good_parent_scan s parent (c # cs) best bd
                      = find_good_parent_scan s parent cs best bd"
        using step by (simp del: find_good_parent_scan.simps)
      from Cons.prems ge have "\<exists>x \<in> set ?fs. ?d x < bd" unfolding fl by auto
      from Cons.IH [OF this, of best] obtain i where i: "first_least ?d ?fs i"
          and l: "?d (?fs ! i) < bd"
          and r: "find_good_parent_scan s parent cs best bd = Inr (?fs ! i)"
        by blast
      from l ge have lc: "?d (?fs ! i) < ?d c" by simp
      from first_least_Cons_Suc [OF i lc] l r run show ?thesis
        unfolding fl by (intro exI [of _ "Suc i"]) simp
    qed
  qed
qed

lemma first_least_uint:
  fixes d :: "'a \<Rightarrow> u64"
  assumes "\<forall>x \<in> set xs. uint (d x) = D x"
  shows "first_least d xs i \<longleftrightarrow> first_least D xs i"
proof -
  have e: "uint (d (xs ! j)) = D (xs ! j)" if "j < length xs" for j
    using assms that by simp
  show ?thesis
    unfolding first_least_def word_less_def word_le_def
    by (auto simp: e)
qed

lemma scan_diff_distance:
  assumes "ctransid_distance s parent c < 2 ^ 63"
  shows "uint (scan_diff s parent c) = ctransid_distance s parent c"
  using assms
  by (auto simp: scan_diff_def ctransid_distance_def ctransid_diff_uint split: option.splits)

text \<open>
  C1, as the code has it. Let the target's recorded ancestor exist and its root id be absent
  from the clone sources, and let the creation transaction id of every sibling among the
  clone sources differ from the ancestor's by less than \<open>2^63\<close>. If there is no sibling,
  \<^verbatim>\<open>find_good_parent\<close> fails with \<^verbatim>\<open>-ENOENT\<close>. Otherwise it returns the sibling whose
  creation transaction id has the smallest absolute difference from the ancestor's, the
  earliest in the array among equals.
\<close>

theorem find_good_parent_closest_sibling:
  assumes "get_parent s rid = Some parent"
    and "root_id parent \<notin> set (clone_sources s)"
    and "\<forall>c \<in> set (siblings_of s parent). ctransid_distance s parent c < 2 ^ 63"
  shows "(siblings_of s parent = [] \<longrightarrow> find_good_parent s rid = Inl (- ENOENT)) \<and>
         (siblings_of s parent \<noteq> [] \<longrightarrow>
            (\<exists>i. first_least (ctransid_distance s parent) (siblings_of s parent) i \<and>
                 find_good_parent s rid = Inr (siblings_of s parent ! i)))"
proof -
  let ?fs = "filter (is_sibling s parent) (clone_sources s)"
  have run: "find_good_parent s rid = find_good_parent_scan s parent (clone_sources s) None (- 1)"
    using assms(1,2) by (simp add: find_good_parent_def)
  have eq: "\<forall>c \<in> set ?fs. uint (scan_diff s parent c) = ctransid_distance s parent c"
    using assms(3) by (auto simp: siblings_of_def scan_diff_distance)
  have small: "scan_diff s parent c < - 1" if "c \<in> set ?fs" for c
  proof -
    from that eq assms(3) have "uint (scan_diff s parent c) < 2 ^ 63"
      by (auto simp: siblings_of_def)
    moreover have "uint (- 1 :: u64) = 2 ^ 64 - 1" by (simp add: uint_word_ariths)
    ultimately show ?thesis by (simp add: word_less_def)
  qed
  show ?thesis
  proof (cases "?fs = []")
    case True
    then have "find_good_parent_scan s parent (clone_sources s) None (- 1) = scan_finish None"
      by (intro scan_none) simp
    with True run show ?thesis by (simp add: siblings_of_def scan_finish_def)
  next
    case False
    then obtain c where "c \<in> set ?fs" by (cases ?fs) auto
    with small have "\<exists>c \<in> set ?fs. scan_diff s parent c < - 1" by blast
    from scan_some [OF this, of None] obtain i
      where i: "first_least (scan_diff s parent) ?fs i"
        and r: "find_good_parent_scan s parent (clone_sources s) None (- 1) = Inr (?fs ! i)"
      by blast
    from i first_least_uint [OF eq] have "first_least (ctransid_distance s parent) ?fs i"
      by blast
    with r run False show ?thesis by (auto simp: siblings_of_def)
  qed
qed

lemma send_example_parent: "get_parent send_example 260 = Some (reg_example ! 0)"
  by (simp add: send_example_def get_parent_def reg_example_def)

lemma send_example_siblings: "siblings_of send_example (reg_example ! 0) = [257, 258, 259]"
  by (simp add: siblings_of_def is_sibling_def send_example_def get_parent_def reg_example_def)

lemma send_example_distance:
  "ctransid_distance send_example (reg_example ! 0) 257 = 10"
  "ctransid_distance send_example (reg_example ! 0) 258 = 50"
  "ctransid_distance send_example (reg_example ! 0) 259 = 1"
  by (simp_all add: ctransid_distance_def send_example_def reg_example_def)

theorem find_good_parent_closest_sibling_witness:
  "find_good_parent send_example 260 = Inr 259"
proof -
  let ?p = "reg_example ! 0"
  have nin: "root_id ?p \<notin> set (clone_sources send_example)"
    by (simp add: send_example_def reg_example_def)
  have bound: "\<forall>c \<in> set (siblings_of send_example ?p). ctransid_distance send_example ?p c < 2 ^ 63"
    by (simp add: send_example_siblings send_example_distance)
  from find_good_parent_closest_sibling [OF send_example_parent nin bound]
  obtain i where i: "first_least (ctransid_distance send_example ?p) [257, 258, 259] i"
    and r: "find_good_parent send_example 260 = Inr ([257, 258, 259] ! i)"
    by (auto simp: send_example_siblings)
  from i have i3: "i < 3" by (simp add: first_least_def)
  from i have "\<forall>j < length [257, 258, 259 :: u64].
      ctransid_distance send_example ?p ([257, 258, 259] ! i)
        \<le> ctransid_distance send_example ?p ([257, 258, 259] ! j)"
    unfolding first_least_def by blast
  then have le: "ctransid_distance send_example ?p ([257, 258, 259] ! i)
      \<le> ctransid_distance send_example ?p ([257, 258, 259] ! 2)"
    by (elim allE [of _ 2]) simp
  from i3 consider "i = 0" | "i = 1" | "i = 2" by linarith
  then have "i = 2"
  proof cases
    case 1 with le show ?thesis by (simp add: send_example_distance)
  next
    case 2 with le show ?thesis by (simp add: send_example_distance)
  next
    case 3 then show ?thesis .
  qed
  with r show ?thesis by simp
qed

text \<open>
  C1 as stated fails when the difference does not fit the signed 64-bit variable
  \<^verbatim>\<open>tmp\<close>: with the ancestor created in transaction 0 and the siblings 257 and 258
  created in transactions \<open>2^63 + 5\<close> and \<open>2^63 - 1\<close>, the search returns 257, whose
  absolute difference is the larger one.
\<close>

theorem find_good_parent_closest_counterexample:
  "get_parent send_far 260 = Some (reg_far ! 0) \<and>
   root_id (reg_far ! 0) \<notin> set (clone_sources send_far) \<and>
   siblings_of send_far (reg_far ! 0) = [257, 258] \<and>
   find_good_parent send_far 260 = Inr 257 \<and>
   ctransid_distance send_far (reg_far ! 0) 258 < ctransid_distance send_far (reg_far ! 0) 257"
  by (simp add: send_far_def reg_far_def get_parent_def siblings_of_def is_sibling_def
      find_good_parent_def ctransid_distance_def word_sless_alt)

section \<open>The stream pump\<close>

lemma sys_write_calls:
  "sys_write w bs = (r, w') \<Longrightarrow> calls w' = calls w @ [Sys_write r]"
  by (auto simp: sys_write_def split: list.splits write_outcome.splits)

lemma sys_write_dumped:
  "sys_write w bs = (Inr n, w') \<Longrightarrow> dumped w' = dumped w @ take n bs"
  by (auto simp: sys_write_def split: list.splits write_outcome.splits)

lemma sys_write_failed:
  "sys_write w bs = (Inl e, w') \<Longrightarrow> dumped w' = dumped w"
  by (auto simp: sys_write_def split: list.splits write_outcome.splits)

lemma sys_write_accepts:
  assumes "sink_accepts w" and "bs \<noteq> []"
  shows "\<exists>n w'. sys_write w bs = (Inr n, w') \<and> 0 < n \<and> sink_accepts w'"
proof (cases "wscript w")
  case Nil
  with assms show ?thesis by (simp add: sys_write_def sink_accepts_def)
next
  case (Cons x ws)
  with assms(1) have x: "accepting x" and ws: "list_all accepting ws"
    by (simp_all add: sink_accepts_def)
  from x obtain n where n: "x = WAccept n" "0 < n" by (cases x) simp_all
  with Cons ws assms(2) show ?thesis by (simp add: sys_write_def sink_accepts_def)
qed

lemma write_buf_from_accepts:
  "sink_accepts w \<Longrightarrow>
     \<exists>w'. write_buf_from w buf pos = (Inr (), w') \<and> sink_accepts w' \<and>
       dumped w' = dumped w @ drop pos buf"
proof (induction w buf pos rule: write_buf_from.induct)
  case (1 w buf pos)
  show ?case
  proof (cases "pos < length buf")
    case False
    with "1.prems" show ?thesis by simp
  next
    case True
    then have ne: "drop pos buf \<noteq> []" by simp
    from sys_write_accepts [OF "1.prems" ne] obtain n w1
      where sw: "sys_write w (drop pos buf) = (Inr n, w1)" and n: "0 < n"
        and a1: "sink_accepts w1" by auto
    from n have n0: "n \<noteq> 0" by simp
    from "1.IH" [OF True sw [symmetric] refl n0 a1] obtain w'
      where r: "write_buf_from w1 buf (pos + n) = (Inr (), w')" and a: "sink_accepts w'"
        and d: "dumped w' = dumped w1 @ drop (pos + n) buf" by auto
    from sys_write_dumped [OF sw] have d1: "dumped w1 = dumped w @ take n (drop pos buf)" .
    have "take n (drop pos buf) @ drop (pos + n) buf = drop pos buf"
      by (metis add.commute append_take_drop_id drop_drop)
    with d d1 have dd: "dumped w' = dumped w @ drop pos buf" by simp
    from True sw n0 r have "write_buf_from w buf pos = (Inr (), w')" by simp
    with a dd show ?thesis by simp
  qed
qed

lemma write_buf_from_calls:
  "write_buf_from w buf pos = (r, w') \<Longrightarrow>
     \<exists>new. calls w' = calls w @ new \<and> reads_of new = [] \<and> sends_of new = [] \<and> (\<forall>q. Sys_send_ret q \<notin> set new) \<and>
       (isl r \<longleftrightarrow> (\<exists>c \<in> set new. failed_call c)) \<and>
       (\<not> isl r \<longrightarrow> dumped w' = dumped w @ drop pos buf) \<and>
       (\<forall>e. r = Inl e \<longrightarrow>
          new \<noteq> [] \<and>
          (last new = Sys_write (Inl (- e)) \<or> last new = Sys_write (Inr 0) \<and> e = - EIO))"
proof (induction w buf pos arbitrary: r w' rule: write_buf_from.induct)
  case (1 w buf pos)
  show ?case
  proof (cases "pos < length buf")
    case False
    with "1.prems" have "r = Inr ()" "w' = w" by simp_all
    with False show ?thesis by (intro exI [of _ "[]"]) simp
  next
    case True
    obtain x w1 where sw: "sys_write w (drop pos buf) = (x, w1)" by force
    note c1 = sys_write_calls [OF sw]
    show ?thesis
    proof (cases x)
      case (Inl e)
      with True sw "1.prems" have "r = Inl (- e)" "w' = w1" by simp_all
      with c1 Inl show ?thesis by (intro exI [of _ "[Sys_write x]"]) simp
    next
      case (Inr ret)
      show ?thesis
      proof (cases "ret = 0")
        case True
        with \<open>pos < length buf\<close> sw Inr "1.prems" have "r = Inl (- EIO)" "w' = w1" by simp_all
        with c1 Inr True show ?thesis by (intro exI [of _ "[Sys_write x]"]) simp
      next
        case False
        from \<open>pos < length buf\<close> sw Inr False "1.prems"
        have rec: "write_buf_from w1 buf (pos + ret) = (r, w')" by simp
        from "1.IH" [OF \<open>pos < length buf\<close> sw [symmetric] Inr False rec]
        obtain new where IH: "calls w' = calls w1 @ new \<and> reads_of new = [] \<and>
          sends_of new = [] \<and> (\<forall>q. Sys_send_ret q \<notin> set new) \<and>
          (isl r \<longleftrightarrow> (\<exists>c \<in> set new. failed_call c)) \<and>
          (\<not> isl r \<longrightarrow> dumped w' = dumped w1 @ drop (pos + ret) buf) \<and>
          (\<forall>e. r = Inl e \<longrightarrow>
             new \<noteq> [] \<and>
             (last new = Sys_write (Inl (- e)) \<or> last new = Sys_write (Inr 0) \<and> e = - EIO))" ..
        from sys_write_dumped [OF sw [unfolded Inr]]
        have d1: "dumped w1 = dumped w @ take ret (drop pos buf)" .
        have td: "take ret (drop pos buf) @ drop (pos + ret) buf = drop pos buf"
          by (metis add.commute append_take_drop_id drop_drop)
        let ?new = "Sys_write x # new"
        have a: "calls w' = calls w @ ?new" using IH c1 by simp
        have b: "reads_of ?new = []" "sends_of ?new = []" "\<forall>q. Sys_send_ret q \<notin> set ?new"
          using IH by simp_all
        have c: "isl r \<longleftrightarrow> (\<exists>c \<in> set ?new. failed_call c)" using IH Inr False by simp
        have d: "\<not> isl r \<longrightarrow> dumped w' = dumped w @ drop pos buf" using IH d1 td by simp
        have e: "\<forall>e. r = Inl e \<longrightarrow>
          ?new \<noteq> [] \<and>
          (last ?new = Sys_write (Inl (- e)) \<or> last ?new = Sys_write (Inr 0) \<and> e = - EIO)"
          using IH by simp
        from a b c d e show ?thesis by (intro exI [of _ ?new] conjI)
      qed
    qed
  qed
qed

lemma write_buf_calls:
  "write_buf w buf = (r, w') \<Longrightarrow>
     \<exists>new. calls w' = calls w @ new \<and> reads_of new = [] \<and> sends_of new = [] \<and> (\<forall>q. Sys_send_ret q \<notin> set new) \<and>
       (isl r \<longleftrightarrow> (\<exists>c \<in> set new. failed_call c)) \<and>
       (\<not> isl r \<longrightarrow> dumped w' = dumped w @ buf) \<and>
       (\<forall>e. r = Inl e \<longrightarrow>
          new \<noteq> [] \<and>
          (last new = Sys_write (Inl (- e)) \<or> last new = Sys_write (Inr 0) \<and> e = - EIO))"
  using write_buf_from_calls [of w buf 0 r w'] by (simp add: write_buf_def)

lemma reads_of_append: "reads_of (xs @ ys) = reads_of xs @ reads_of ys"
  by (induction xs rule: reads_of.induct) simp_all

lemma sends_of_append: "sends_of (xs @ ys) = sends_of xs @ sends_of ys"
  by (induction xs rule: sends_of.induct) simp_all

lemma dump_thread_calls:
  "dump_thread rs w = (st, w') \<Longrightarrow>
     \<exists>new. calls w' = calls w @ new \<and> sends_of new = [] \<and>
       (\<forall>q. Sys_send_ret q \<notin> set new) \<and>
       reads_of new = take (length (reads_of new)) rs \<and>
       ((\<exists>c. st = Some (Thread_exit c)) \<longleftrightarrow> (\<exists>x \<in> set new. failed_call x)) \<and>
       (\<forall>c. st = Some (Thread_exit c) \<longrightarrow>
          new \<noteq> [] \<and>
          (last new = Sys_read (RErr c) \<or> last new = Sys_write (Inl c) \<or>
           last new = Sys_write (Inr 0) \<and> c = EIO)) \<and>
       (RData [] \<in> set rs \<and> (\<forall>x \<in> set new. \<not> failed_call x) \<longrightarrow>
          st = Some (Thread_return 0) \<and>
          dumped w' = dumped w @ concat (map read_bytes (takeWhile (\<lambda>x. x \<noteq> RData []) rs)))"
proof (induction rs arbitrary: w st w')
  case Nil
  then show ?case by simp
next
  case (Cons r rs)
  let ?w1 = "w\<lparr>calls := calls w @ [Sys_read r]\<rparr>"
  show ?case
  proof (cases r)
    case (RErr e)
    with Cons.prems have "st = Some (Thread_exit e)" "calls w' = calls w @ [Sys_read r]"
      by auto
    with RErr show ?thesis by (intro exI [of _ "[Sys_read r]"]) simp
  next
    case (RData buf)
    show ?thesis
    proof (cases "buf = []")
      case True
      with RData Cons.prems have "st = Some (Thread_return 0)" "w' = ?w1" by auto
      with RData True show ?thesis by (intro exI [of _ "[Sys_read r]"]) simp
    next
      case False
      obtain x w2 where wb: "write_buf ?w1 buf = (x, w2)" by force
      from write_buf_calls [OF wb] obtain nw where W: "calls w2 = calls ?w1 @ nw \<and>
        reads_of nw = [] \<and> sends_of nw = [] \<and> (\<forall>q. Sys_send_ret q \<notin> set nw) \<and>
        (isl x \<longleftrightarrow> (\<exists>c \<in> set nw. failed_call c)) \<and>
        (\<not> isl x \<longrightarrow> dumped w2 = dumped ?w1 @ buf) \<and>
        (\<forall>e. x = Inl e \<longrightarrow>
          nw \<noteq> [] \<and>
          (last nw = Sys_write (Inl (- e)) \<or> last nw = Sys_write (Inr 0) \<and> e = - EIO))" ..
      from W have nw: "calls w2 = calls ?w1 @ nw" by (rule conjunct1)
      from W have rnw: "reads_of nw = []" "sends_of nw = []" by simp_all
      from W have qnw: "\<forall>q. Sys_send_ret q \<notin> set nw" by simp
      from W have fw: "isl x \<longleftrightarrow> (\<exists>c \<in> set nw. failed_call c)" by simp
      from W have dw: "\<not> isl x \<longrightarrow> dumped w2 = dumped ?w1 @ buf" by simp
      from W have lw: "\<forall>e. x = Inl e \<longrightarrow>
          nw \<noteq> [] \<and>
          (last nw = Sys_write (Inl (- e)) \<or> last nw = Sys_write (Inr 0) \<and> e = - EIO)"
        by simp
      show ?thesis
      proof (cases x)
        case (Inl ret)
        with RData False wb Cons.prems have st: "st = Some (Thread_exit (- ret))" "w' = w2"
          by auto
        let ?new = "Sys_read r # nw"
        have a: "calls w' = calls w @ ?new" using nw st by simp
        have b: "sends_of ?new = []" using rnw by simp
        have q: "\<forall>q. Sys_send_ret q \<notin> set ?new" using qnw by simp
        have c: "reads_of ?new = take (length (reads_of ?new)) (r # rs)" using rnw by simp
        have d: "(\<exists>c. st = Some (Thread_exit c)) \<longleftrightarrow> (\<exists>x \<in> set ?new. failed_call x)"
          using fw Inl st by simp
        have e: "\<forall>c. st = Some (Thread_exit c) \<longrightarrow>
          ?new \<noteq> [] \<and>
          (last ?new = Sys_read (RErr c) \<or> last ?new = Sys_write (Inl c) \<or>
           last ?new = Sys_write (Inr 0) \<and> c = EIO)"
          using lw Inl st by auto
        have f: "RData [] \<in> set (r # rs) \<and> (\<forall>x \<in> set ?new. \<not> failed_call x) \<longrightarrow>
          st = Some (Thread_return 0) \<and>
          dumped w' = dumped w @
            concat (map read_bytes (takeWhile (\<lambda>x. x \<noteq> RData []) (r # rs)))"
          using fw Inl by auto
        from a b q c d e f show ?thesis by (intro exI [of _ ?new] conjI)
      next
        case (Inr u)
        with RData False wb Cons.prems have rec: "dump_thread rs w2 = (st, w')" by auto
        from Cons.IH [OF rec] obtain n2 where IH: "calls w' = calls w2 @ n2 \<and>
          sends_of n2 = [] \<and> (\<forall>q. Sys_send_ret q \<notin> set n2) \<and>
          reads_of n2 = take (length (reads_of n2)) rs \<and>
          ((\<exists>c. st = Some (Thread_exit c)) \<longleftrightarrow> (\<exists>x \<in> set n2. failed_call x)) \<and>
          (\<forall>c. st = Some (Thread_exit c) \<longrightarrow>
             n2 \<noteq> [] \<and>
             (last n2 = Sys_read (RErr c) \<or> last n2 = Sys_write (Inl c) \<or>
              last n2 = Sys_write (Inr 0) \<and> c = EIO)) \<and>
          (RData [] \<in> set rs \<and> (\<forall>x \<in> set n2. \<not> failed_call x) \<longrightarrow>
            st = Some (Thread_return 0) \<and>
            dumped w' = dumped w2 @ concat (map read_bytes (takeWhile (\<lambda>x. x \<noteq> RData []) rs)))"
          ..
        from IH have n2: "calls w' = calls w2 @ n2" by (rule conjunct1)
        from IH have s2: "sends_of n2 = []" by simp
        from IH have q2: "\<forall>q. Sys_send_ret q \<notin> set n2" by simp
        from IH have r2: "reads_of n2 = take (length (reads_of n2)) rs" by simp
        from IH have f2: "(\<exists>c. st = Some (Thread_exit c)) \<longleftrightarrow> (\<exists>x \<in> set n2. failed_call x)"
          by simp
        from IH have l2: "\<forall>c. st = Some (Thread_exit c) \<longrightarrow>
             n2 \<noteq> [] \<and>
             (last n2 = Sys_read (RErr c) \<or> last n2 = Sys_write (Inl c) \<or>
              last n2 = Sys_write (Inr 0) \<and> c = EIO)" by simp
        from IH have d2: "RData [] \<in> set rs \<and> (\<forall>x \<in> set n2. \<not> failed_call x) \<longrightarrow>
            st = Some (Thread_return 0) \<and>
            dumped w' = dumped w2 @ concat (map read_bytes (takeWhile (\<lambda>x. x \<noteq> RData []) rs))"
          by simp
        from fw Inr have nf: "\<forall>c \<in> set nw. \<not> failed_call c" by auto
        from dw Inr have dd: "dumped w2 = dumped w @ buf" by simp
        let ?new = "Sys_read r # nw @ n2"
        have a: "calls w' = calls w @ ?new" using n2 nw by simp
        have b: "sends_of ?new = []" using rnw s2 by (simp add: sends_of_append)
        have q: "\<forall>q. Sys_send_ret q \<notin> set ?new" using qnw q2 by simp
        have "reads_of ?new = r # reads_of n2" using rnw by (simp add: reads_of_append)
        with r2 have c: "reads_of ?new = take (length (reads_of ?new)) (r # rs)" by simp
        have d: "(\<exists>c. st = Some (Thread_exit c)) \<longleftrightarrow> (\<exists>x \<in> set ?new. failed_call x)"
          using f2 nf RData by auto
        have e: "\<forall>c. st = Some (Thread_exit c) \<longrightarrow>
          ?new \<noteq> [] \<and>
          (last ?new = Sys_read (RErr c) \<or> last ?new = Sys_write (Inl c) \<or>
           last ?new = Sys_write (Inr 0) \<and> c = EIO)"
          using l2 by auto
        have f: "RData [] \<in> set (r # rs) \<and> (\<forall>x \<in> set ?new. \<not> failed_call x) \<longrightarrow>
            st = Some (Thread_return 0) \<and>
            dumped w' = dumped w @
              concat (map read_bytes (takeWhile (\<lambda>x. x \<noteq> RData []) (r # rs)))"
          using d2 dd RData False by auto
        from a b q c d e f show ?thesis by (intro exI [of _ ?new] conjI)
      qed
    qed
  qed
qed

lemma dump_thread_accepts:
  "sink_accepts w \<Longrightarrow>
     fst (dump_thread rs w) = end_of_reads rs \<and>
     dumped (snd (dump_thread rs w)) = dumped w @ concat (map read_bytes (chunks_read rs)) \<and>
     reads_of (new_calls w (snd (dump_thread rs w))) = take (Suc (length (chunks_read rs))) rs"
proof (induction rs arbitrary: w)
  case Nil
  then show ?case by (simp add: end_of_reads_def chunks_read_def new_calls_def)
next
  case (Cons r rs)
  let ?w1 = "w\<lparr>calls := calls w @ [Sys_read r]\<rparr>"
  show ?case
  proof (cases "is_chunk r")
    case False
    then show ?thesis
      by (cases r) (simp_all add: end_of_reads_def chunks_read_def new_calls_def)
  next
    case True
    then obtain buf where r: "r = RData buf" and ne: "buf \<noteq> []" by (cases r) simp_all
    from Cons.prems have a1: "sink_accepts ?w1" by (simp add: sink_accepts_def)
    from write_buf_from_accepts [OF a1, of buf 0] obtain w2
      where wb: "write_buf ?w1 buf = (Inr (), w2)" and a2: "sink_accepts w2"
        and d2: "dumped w2 = dumped w @ buf" by (auto simp: write_buf_def)
    from write_buf_calls [OF wb] obtain nw
      where nw: "calls w2 = calls ?w1 @ nw" and rnw: "reads_of nw = []" by auto
    from r ne wb have step: "dump_thread (r # rs) w = dump_thread rs w2" by simp
    obtain st w' where dt: "dump_thread rs w2 = (st, w')" by force
    from dump_thread_calls [OF dt] obtain n2 where n2: "calls w' = calls w2 @ n2" by auto
    have "new_calls w w' = Sys_read r # nw @ new_calls w2 w'"
      using nw n2 by (simp add: new_calls_def)
    then have rd: "reads_of (new_calls w w') = r # reads_of (new_calls w2 w')"
      using rnw by (simp add: reads_of_append)
    from Cons.IH [OF a2] dt have IH: "st = end_of_reads rs"
      "dumped w' = dumped w2 @ concat (map read_bytes (chunks_read rs))"
      "reads_of (new_calls w2 w') = take (Suc (length (chunks_read rs))) rs" by simp_all
    from True have e: "end_of_reads (r # rs) = end_of_reads rs"
      and c: "chunks_read (r # rs) = r # chunks_read rs"
      by (simp_all add: end_of_reads_def chunks_read_def)
    show ?thesis unfolding step dt e c using IH d2 rd r by simp
  qed
qed

lemma dump_thread_first_write:
  assumes "rs = RData b # rest" and "b \<noteq> []"
  shows "(\<forall>e ws. wscript w = WErr e # ws \<longrightarrow>
            fst (dump_thread rs w) = Some (Thread_exit e) \<and>
            dumped (snd (dump_thread rs w)) = dumped w) \<and>
         (\<forall>ws. wscript w = WAccept 0 # ws \<longrightarrow>
            fst (dump_thread rs w) = Some (Thread_exit EIO) \<and>
            dumped (snd (dump_thread rs w)) = dumped w)"
  using assms by (simp add: write_buf_def sys_write_def)

text \<open>
  C6. \<^verbatim>\<open>dump_thread\<close> on the reads \<open>rs\<close> that the pipe serves it, in order.
  \<^item> The reads it makes are the reads served, from the first on and in order, none skipped.
  \<^item> It ends the process by \<^verbatim>\<open>exit\<close> exactly when one of its system calls failed: a
    \<^verbatim>\<open>read\<close> that returned an error, or a \<^verbatim>\<open>write\<close> that returned an error or
    0. The failed call is then its last one, and the exit status is the error number of
    that call, \<^verbatim>\<open>EIO\<close> for a \<^verbatim>\<open>write\<close> that returned 0.
  \<^item> When the reads served hold one of length zero and no call fails, it returns 0, and
    the bytes written to the dump stream are those of the reads before the first
    zero-length one, in order.
  \<^item> On a sink that takes every chunk, whole or in pieces, the outcome is fixed by the reads
    alone: every chunk before the first read that is an error or of length zero is read
    and written in full, in order, that read is the last one made, and the thread ends by
    \<^verbatim>\<open>exit\<close> with the error number if it is an error and returns 0 if it is of length
    zero; a read error is never passed over.
  \<^item> When the first \<^verbatim>\<open>write\<close> of the first chunk returns an error or 0, the thread
    ends by \<^verbatim>\<open>exit\<close> with that error number, or \<^verbatim>\<open>EIO\<close>, and nothing is written.
\<close>

theorem dump_thread_pump:
  "((\<exists>c. fst (dump_thread rs w) = Some (Thread_exit c)) \<longleftrightarrow>
      (\<exists>x \<in> set (new_calls w (snd (dump_thread rs w))). failed_call x)) \<and>
   (RData [] \<in> set rs \<and> (\<forall>x \<in> set (new_calls w (snd (dump_thread rs w))). \<not> failed_call x) \<longrightarrow>
      fst (dump_thread rs w) = Some (Thread_return 0) \<and>
      dumped (snd (dump_thread rs w)) =
        dumped w @ concat (map read_bytes (takeWhile (\<lambda>x. x \<noteq> RData []) rs))) \<and>
   reads_of (new_calls w (snd (dump_thread rs w)))
     = take (length (reads_of (new_calls w (snd (dump_thread rs w))))) rs \<and>
   (\<forall>c. fst (dump_thread rs w) = Some (Thread_exit c) \<longrightarrow>
      new_calls w (snd (dump_thread rs w)) \<noteq> [] \<and>
      (last (new_calls w (snd (dump_thread rs w))) = Sys_read (RErr c) \<or>
       last (new_calls w (snd (dump_thread rs w))) = Sys_write (Inl c) \<or>
       last (new_calls w (snd (dump_thread rs w))) = Sys_write (Inr 0) \<and> c = EIO)) \<and>
   (sink_accepts w \<longrightarrow>
      fst (dump_thread rs w) = end_of_reads rs \<and>
      dumped (snd (dump_thread rs w)) = dumped w @ concat (map read_bytes (chunks_read rs)) \<and>
      reads_of (new_calls w (snd (dump_thread rs w))) = take (Suc (length (chunks_read rs))) rs) \<and>
   (\<forall>b rest. rs = RData b # rest \<and> b \<noteq> [] \<longrightarrow>
      (\<forall>e ws. wscript w = WErr e # ws \<longrightarrow>
         fst (dump_thread rs w) = Some (Thread_exit e) \<and>
         dumped (snd (dump_thread rs w)) = dumped w) \<and>
      (\<forall>ws. wscript w = WAccept 0 # ws \<longrightarrow>
         fst (dump_thread rs w) = Some (Thread_exit EIO) \<and>
         dumped (snd (dump_thread rs w)) = dumped w))"
proof -
  obtain st w' where r: "dump_thread rs w = (st, w')" by force
  from dump_thread_calls [OF r] obtain new where s: "calls w' = calls w @ new \<and>
    sends_of new = [] \<and> (\<forall>q. Sys_send_ret q \<notin> set new) \<and>
    reads_of new = take (length (reads_of new)) rs \<and>
    ((\<exists>c. st = Some (Thread_exit c)) \<longleftrightarrow> (\<exists>x \<in> set new. failed_call x)) \<and>
    (\<forall>c. st = Some (Thread_exit c) \<longrightarrow>
       new \<noteq> [] \<and>
       (last new = Sys_read (RErr c) \<or> last new = Sys_write (Inl c) \<or>
        last new = Sys_write (Inr 0) \<and> c = EIO)) \<and>
    (RData [] \<in> set rs \<and> (\<forall>x \<in> set new. \<not> failed_call x) \<longrightarrow>
          st = Some (Thread_return 0) \<and>
          dumped w' = dumped w @ concat (map read_bytes (takeWhile (\<lambda>x. x \<noteq> RData []) rs)))"
    ..
  from s have n: "new_calls w w' = new" by (simp add: new_calls_def)
  have a: "(\<exists>c. fst (dump_thread rs w) = Some (Thread_exit c)) \<longleftrightarrow>
      (\<exists>x \<in> set (new_calls w (snd (dump_thread rs w))). failed_call x)"
    using s n by (simp add: r)
  have b: "RData [] \<in> set rs \<and>
      (\<forall>x \<in> set (new_calls w (snd (dump_thread rs w))). \<not> failed_call x) \<longrightarrow>
      fst (dump_thread rs w) = Some (Thread_return 0) \<and>
      dumped (snd (dump_thread rs w)) =
        dumped w @ concat (map read_bytes (takeWhile (\<lambda>x. x \<noteq> RData []) rs))"
    using s n by (simp add: r)
  have c: "reads_of (new_calls w (snd (dump_thread rs w)))
     = take (length (reads_of (new_calls w (snd (dump_thread rs w))))) rs"
    using s n by (simp add: r)
  have d: "\<forall>c. fst (dump_thread rs w) = Some (Thread_exit c) \<longrightarrow>
      new_calls w (snd (dump_thread rs w)) \<noteq> [] \<and>
      (last (new_calls w (snd (dump_thread rs w))) = Sys_read (RErr c) \<or>
       last (new_calls w (snd (dump_thread rs w))) = Sys_write (Inl c) \<or>
       last (new_calls w (snd (dump_thread rs w))) = Sys_write (Inr 0) \<and> c = EIO)"
    using s n by (simp add: r)
  have e: "sink_accepts w \<longrightarrow>
      fst (dump_thread rs w) = end_of_reads rs \<and>
      dumped (snd (dump_thread rs w)) = dumped w @ concat (map read_bytes (chunks_read rs)) \<and>
      reads_of (new_calls w (snd (dump_thread rs w))) = take (Suc (length (chunks_read rs))) rs"
    using dump_thread_accepts [of w rs] by simp
  have f: "\<forall>b rest. rs = RData b # rest \<and> b \<noteq> [] \<longrightarrow>
      (\<forall>e ws. wscript w = WErr e # ws \<longrightarrow>
         fst (dump_thread rs w) = Some (Thread_exit e) \<and>
         dumped (snd (dump_thread rs w)) = dumped w) \<and>
      (\<forall>ws. wscript w = WAccept 0 # ws \<longrightarrow>
         fst (dump_thread rs w) = Some (Thread_exit EIO) \<and>
         dumped (snd (dump_thread rs w)) = dumped w)"
    using dump_thread_first_write [of rs _ _ w] by blast
  from a b c d e f show ?thesis by (intro conjI)
qed

theorem dump_thread_pump_witness:
  "sink_accepts world_example \<and>
   fst (dump_thread [RData [97, 98, 99], RData [], RData [100]] world_example)
     = Some (Thread_return 0) \<and>
   dumped (snd (dump_thread [RData [97, 98, 99], RData [], RData [100]] world_example))
     = [97, 98, 99] \<and>
   reads_of (new_calls world_example
       (snd (dump_thread [RData [97, 98, 99], RData [], RData [100]] world_example)))
     = [RData [97, 98, 99], RData []] \<and>
   sink_accepts world_init \<and>
   fst (dump_thread [RData [97], RErr 5, RData [98]] world_init) = Some (Thread_exit 5) \<and>
   dumped (snd (dump_thread [RData [97], RErr 5, RData [98]] world_init)) = [97] \<and>
   wscript world_full = [WErr 28] \<and>
   fst (dump_thread [RData [97, 98]] world_full) = Some (Thread_exit 28) \<and>
   dumped (snd (dump_thread [RData [97, 98]] world_full)) = []"
proof -
  let ?ra = "[RData [97, 98, 99], RData [], RData [100]]"
  let ?rb = "[RData [97], RErr 5, RData [98]]"
  let ?rc = "[RData [97, 98]]"
  have a: "sink_accepts world_example" by (simp add: sink_accepts_def world_example_def)
  have b: "sink_accepts world_init" by (simp add: sink_accepts_def world_init_def)
  have c: "?rc = RData [97, 98] # [] \<and> [97, 98] \<noteq> ([] :: byte list)" by simp
  have d: "wscript world_full = [WErr 28]" by (simp add: world_full_def)
  have ea: "end_of_reads ?ra = Some (Thread_return 0)" "chunks_read ?ra = [RData [97, 98, 99]]"
    by (simp_all add: end_of_reads_def chunks_read_def)
  have eb: "end_of_reads ?rb = Some (Thread_exit 5)" "chunks_read ?rb = [RData [97]]"
    by (simp_all add: end_of_reads_def chunks_read_def)
  from dump_thread_pump [of ?ra world_example] a ea
  have A: "fst (dump_thread ?ra world_example) = Some (Thread_return 0) \<and>
      dumped (snd (dump_thread ?ra world_example)) = [97, 98, 99] \<and>
      reads_of (new_calls world_example (snd (dump_thread ?ra world_example)))
        = [RData [97, 98, 99], RData []]"
    by (simp add: world_example_def)
  from dump_thread_pump [of ?rb world_init] b eb
  have B: "fst (dump_thread ?rb world_init) = Some (Thread_exit 5) \<and>
      dumped (snd (dump_thread ?rb world_init)) = [97]"
    by (simp add: world_init_def)
  from dump_thread_pump [of ?rc world_full] c d
  have C: "fst (dump_thread ?rc world_full) = Some (Thread_exit 28) \<and>
      dumped (snd (dump_thread ?rc world_full)) = []"
    by (simp add: world_full_def)
  from a b d A B C show ?thesis by simp
qed

section \<open>Adding a clone source\<close>

text \<open>
  C4, as the code has it. \<^verbatim>\<open>add_clone_source\<close> appends without looking for the root id
  in the array. It fails only when \<^verbatim>\<open>realloc\<close> does, with \<^verbatim>\<open>-ENOMEM\<close>;
  otherwise it succeeds, the new array is the old one followed by the root id, and the root id
  occurs in it once more than before, also when it was already there.
\<close>

theorem add_clone_source_appends:
  "(realloc_fails E (length (clone_sources s) + 1) \<longrightarrow>
      fst (add_clone_source E s x) = Inl (- ENOMEM)) \<and>
   (\<not> realloc_fails E (length (clone_sources s) + 1) \<longrightarrow>
      fst (add_clone_source E s x) = Inr () \<and>
      clone_sources (snd (add_clone_source E s x)) = clone_sources s @ [x] \<and>
      count_list (clone_sources (snd (add_clone_source E s x))) x
        = Suc (count_list (clone_sources s) x))"
  by (simp add: add_clone_source_def)

theorem add_clone_source_appends_witness:
  "\<not> realloc_fails env_example (length (clone_sources send_example) + 1) \<and>
   fst (add_clone_source env_example send_example 257) = Inr () \<and>
   clone_sources (snd (add_clone_source env_example send_example 257)) = [257, 258, 259, 257] \<and>
   count_list (clone_sources (snd (add_clone_source env_example send_example 257))) 257 = 2"
proof -
  have a: "\<not> realloc_fails env_example (length (clone_sources send_example) + 1)"
    by (simp add: env_example_def)
  from add_clone_source_appends [of env_example send_example 257] a
  show ?thesis by (simp add: send_example_def)
qed

text \<open>
  C4 as stated fails: adding the root id 5 twice to the empty array succeeds both times and
  leaves it in the array twice.
\<close>

theorem add_clone_source_twice_counterexample:
  "fst (add_clone_source env_example \<lparr>clone_sources = [], root_path = None, sus = []\<rparr> 5)
     = Inr () \<and>
   fst (add_clone_source env_example
          (snd (add_clone_source env_example
                  \<lparr>clone_sources = [], root_path = None, sus = []\<rparr> 5)) 5) = Inr () \<and>
   clone_sources
     (snd (add_clone_source env_example
             (snd (add_clone_source env_example
                     \<lparr>clone_sources = [], root_path = None, sus = []\<rparr> 5)) 5)) = [5, 5]"
  by (simp add: add_clone_source_def env_example_def)

section \<open>The system calls of a send\<close>

lemma sys_write_log_free:
  "sys_write (w\<lparr>calls := X\<rparr>) bs =
     (fst (sys_write w bs),
      (snd (sys_write w bs))\<lparr>calls := X @ [Sys_write (fst (sys_write w bs))]\<rparr>)"
  by (simp add: sys_write_def split: list.splits write_outcome.splits)

lemma write_buf_from_log_free:
  "\<exists>Z. write_buf_from (w\<lparr>calls := X\<rparr>) buf pos =
          (fst (write_buf_from w buf pos), (snd (write_buf_from w buf pos))\<lparr>calls := Z\<rparr>)"
proof (induction w buf pos arbitrary: X rule: write_buf_from.induct)
  case (1 w buf pos)
  show ?case
  proof (cases "pos < length buf")
    case False
    then show ?thesis by (intro exI [of _ X]) simp
  next
    case True
    obtain x w1 where sw: "sys_write w (drop pos buf) = (x, w1)" by force
    then have sw': "sys_write (w\<lparr>calls := X\<rparr>) (drop pos buf)
        = (x, w1\<lparr>calls := X @ [Sys_write x]\<rparr>)"
      by (simp add: sys_write_log_free)
    show ?thesis
    proof (cases x)
      case (Inl e)
      with True sw sw' show ?thesis by (intro exI [of _ "X @ [Sys_write x]"]) simp
    next
      case (Inr ret)
      show ?thesis
      proof (cases "ret = 0")
        case True
        with \<open>pos < length buf\<close> sw sw' Inr show ?thesis
          by (intro exI [of _ "X @ [Sys_write x]"]) simp
      next
        case False
        from "1.IH" [OF \<open>pos < length buf\<close> sw [symmetric] Inr False,
            where X = "X @ [Sys_write x]"]
        obtain Z where "write_buf_from (w1\<lparr>calls := X @ [Sys_write x]\<rparr>) buf (pos + ret) =
          (fst (write_buf_from w1 buf (pos + ret)),
           (snd (write_buf_from w1 buf (pos + ret)))\<lparr>calls := Z\<rparr>)" ..
        with \<open>pos < length buf\<close> sw sw' Inr False show ?thesis
          by (intro exI [of _ Z]) simp
      qed
    qed
  qed
qed

lemma dump_thread_log_free:
  "\<exists>Z. dump_thread rs (w\<lparr>calls := X\<rparr>) =
          (fst (dump_thread rs w), (snd (dump_thread rs w))\<lparr>calls := Z\<rparr>)"
proof (induction rs arbitrary: w X)
  case Nil
  show ?case by (intro exI [of _ X]) simp
next
  case (Cons r rs)
  let ?w1 = "w\<lparr>calls := calls w @ [Sys_read r]\<rparr>"
  let ?X1 = "X @ [Sys_read r]"
  show ?case
  proof (cases r)
    case (RErr e)
    then show ?thesis by (intro exI [of _ ?X1]) simp
  next
    case (RData buf)
    show ?thesis
    proof (cases "buf = []")
      case True
      with RData show ?thesis by (intro exI [of _ ?X1]) simp
    next
      case False
      obtain x w2 where wb: "write_buf ?w1 buf = (x, w2)" by force
      from write_buf_from_log_free [where w = ?w1 and X = ?X1 and buf = buf and pos = 0] wb
      obtain Z where wb': "write_buf (w\<lparr>calls := ?X1\<rparr>) buf = (x, w2\<lparr>calls := Z\<rparr>)"
        by (auto simp: write_buf_def)
      show ?thesis
      proof (cases x)
        case (Inl ret)
        with RData False wb wb' show ?thesis by (intro exI [of _ Z]) simp
      next
        case (Inr u)
        from Cons.IH [where w = w2 and X = Z] obtain Z' where
          "dump_thread rs (w2\<lparr>calls := Z\<rparr>) =
             (fst (dump_thread rs w2), (snd (dump_thread rs w2))\<lparr>calls := Z'\<rparr>)" ..
        with RData False wb wb' Inr show ?thesis by (intro exI [of _ Z']) simp
      qed
    qed
  qed
qed

lemma dump_thread_status_log_free:
  "fst (dump_thread rs (w\<lparr>calls := X\<rparr>)) = fst (dump_thread rs w)"
  using dump_thread_log_free [where rs = rs and w = w and X = X] by auto

lemma dump_thread_append:
  "dump_thread (xs @ ys) w =
     (case dump_thread xs w of
        (None, w') \<Rightarrow> dump_thread ys w'
      | (Some st, w') \<Rightarrow> (Some st, w'))"
proof (induction xs arbitrary: w)
  case Nil
  show ?case by simp
next
  case (Cons r xs)
  let ?w1 = "w\<lparr>calls := calls w @ [Sys_read r]\<rparr>"
  show ?case
  proof (cases r)
    case (RErr e)
    then show ?thesis by simp
  next
    case (RData buf)
    show ?thesis
    proof (cases "buf = []")
      case True
      with RData show ?thesis by simp
    next
      case False
      obtain x w2 where wb: "write_buf ?w1 buf = (x, w2)" by force
      show ?thesis
      proof (cases x)
        case (Inl ret)
        with RData False wb show ?thesis by simp
      next
        case (Inr u)
        with RData False wb Cons.IH [of w2] show ?thesis by simp
      qed
    qed
  qed
qed

lemma dump_thread_returns_zero:
  "dump_thread rs w = (Some (Thread_return t_err), w') \<Longrightarrow> t_err = 0"
proof (induction rs arbitrary: w)
  case Nil
  then show ?case by simp
next
  case (Cons r rs)
  show ?case
  proof (cases r)
    case (RErr e)
    with Cons.prems show ?thesis by simp
  next
    case (RData buf)
    show ?thesis
    proof (cases "buf = []")
      case True
      with RData Cons.prems show ?thesis by simp
    next
      case False
      let ?w1 = "w\<lparr>calls := calls w @ [Sys_read r]\<rparr>"
      obtain x w2 where wb: "write_buf ?w1 buf = (x, w2)" by force
      show ?thesis
      proof (cases x)
        case (Inl ret)
        with RData False wb Cons.prems show ?thesis by simp
      next
        case (Inr u)
        with RData False wb Cons.prems
        have "dump_thread rs w2 = (Some (Thread_return t_err), w')" by simp
        then show ?thesis by (rule Cons.IH)
      qed
    qed
  qed
qed

lemma dump_thread_sends:
  "dump_thread rs w = (st, w') \<Longrightarrow>
     \<exists>new. calls w' = calls w @ new \<and> sends_of new = [] \<and> (\<forall>q. Sys_send_ret q \<notin> set new)"
proof -
  assume "dump_thread rs w = (st, w')"
  from dump_thread_calls [OF this] obtain new
    where "calls w' = calls w @ new" "sends_of new = []" "\<forall>q. Sys_send_ret q \<notin> set new"
    by auto
  then show ?thesis by (intro exI [of _ new]) simp
qed

lemma dump_thread_closed_sends:
  "dump_thread_closed rs w = (st, w') \<Longrightarrow> \<exists>new. calls w' = calls w @ new \<and> sends_of new = []"
proof -
  assume a: "dump_thread_closed rs w = (st, w')"
  obtain st1 w1 where d: "dump_thread rs w = (st1, w1)" by force
  from dump_thread_sends [OF d] obtain n1 where n1: "calls w1 = calls w @ n1" "sends_of n1 = []"
    by auto
  show ?thesis
  proof (cases st1)
    case None
    with a d have "w' = w1\<lparr>calls := calls w1 @ [Sys_read (RData [])]\<rparr>"
      by (simp add: dump_thread_closed_def)
    with n1 show ?thesis
      by (intro exI [of _ "n1 @ [Sys_read (RData [])]"]) (simp add: sends_of_append)
  next
    case (Some x)
    with a d have "w' = w1" by (simp add: dump_thread_closed_def)
    with n1 show ?thesis by (intro exI [of _ n1]) simp
  qed
qed

lemma leave_unjoined_sends:
  "leave_unjoined f st rs w = (r, w') \<Longrightarrow>
     isl r \<and> (\<exists>new. calls w' = calls w @ new \<and> sends_of new = [])"
proof -
  assume a: "leave_unjoined f st rs w = (r, w')"
  obtain st1 w1 where d: "dump_thread rs w = (st1, w1)" by force
  from dump_thread_sends [OF d] obtain n1 where n1: "calls w1 = calls w @ n1" "sends_of n1 = []"
    by auto
  from a d have "isl r \<and> (w' = w \<or> w' = w1)"
    by (auto simp: leave_unjoined_def split: option.splits thread_status.splits)
  then show ?thesis
  proof (elim conjE disjE)
    assume "isl r" "w' = w"
    then show ?thesis by simp
  next
    assume "isl r" "w' = w1"
    with n1 show ?thesis by (intro conjI exI [of _ n1]) simp_all
  qed
qed

lemma do_send_early:
  "open_errno E subvol \<noteq> None \<or> pipe_errno E subvol \<noteq> None \<or> pthread_create_err E subvol \<noteq> None
   \<Longrightarrow> \<exists>r. do_send E s p f l subvol flags w = (Inl (Fail r), w)"
  by (auto simp: do_send_def split: option.splits)

text \<open>The run of \<^verbatim>\<open>do_send\<close> once the thread exists, phase by phase.\<close>

lemma do_send_phases:
  assumes "open_errno E subvol = None" "pipe_errno E subvol = None"
    "pthread_create_err E subvol = None"
    and "g = ioctl_send E subvol (do_send_args s p f l flags)"
    and "dump_thread (reads_during g)
           (w\<lparr>calls := calls w @ [Sys_send subvol (do_send_args s p f l flags)]\<rparr>) = (st1, w1)"
    and "w2 = w1\<lparr>calls := calls w1 @ [Sys_send_ret (ioctl_errno g)]\<rparr>"
  shows "do_send E s p f l subvol flags w =
     (case st1 of
        Some (Thread_exit c) \<Rightarrow> (Inl (Exit_proc c), w1)
      | other \<Rightarrow>
     (case ioctl_errno g of
        Some e \<Rightarrow> leave_unjoined (Fail (- e)) st1 (reads_after g) w2
      | None \<Rightarrow>
     (case pthread_join_err E subvol of
        Some e \<Rightarrow> leave_unjoined (Fail (- e)) st1 (reads_after g) w2
      | None \<Rightarrow>
     (case (case st1 of Some st \<Rightarrow> (st, w2) | None \<Rightarrow> dump_thread_closed (reads_after g) w2) of
        (Thread_exit c, w3) \<Rightarrow> (Inl (Exit_proc c), w3)
      | (Thread_return t_err, w3) \<Rightarrow>
          if t_err \<noteq> 0 then (Inl (Fail t_err), w3) else (Inr (), w3)))))"
  using assms(1-3,5) unfolding assms(4,6)
  by (simp add: do_send_def Let_def split: option.splits thread_status.splits)

lemma do_send_log:
  assumes "open_errno E subvol = None" "pipe_errno E subvol = None"
    "pthread_create_err E subvol = None"
    and "do_send E s p f l subvol flags w = (r, w')"
  shows "\<exists>rest. calls w' = calls w @ Sys_send subvol (do_send_args s p f l flags) # rest \<and>
           sends_of rest = []"
proof -
  let ?io = "do_send_args s p f l flags"
  let ?g = "ioctl_send E subvol ?io"
  let ?w0 = "w\<lparr>calls := calls w @ [Sys_send subvol ?io]\<rparr>"
  obtain st1 w1 where d1: "dump_thread (reads_during ?g) ?w0 = (st1, w1)" by force
  from dump_thread_sends [OF d1] obtain n1
    where n1: "calls w1 = calls ?w0 @ n1" "sends_of n1 = []" by auto
  let ?w2 = "w1\<lparr>calls := calls w1 @ [Sys_send_ret (ioctl_errno ?g)]\<rparr>"
  note ph = do_send_phases [OF assms(1-3) refl d1 refl]
  have base1: "calls w1 = calls w @ Sys_send subvol ?io # n1" using n1 by simp
  have base2: "calls ?w2 = calls w @ Sys_send subvol ?io # (n1 @ [Sys_send_ret (ioctl_errno ?g)])"
    using n1 by simp
  have s2: "sends_of (n1 @ [Sys_send_ret (ioctl_errno ?g)]) = []"
    using n1 by (simp add: sends_of_append)
  have ext: "\<exists>new. calls w' = calls ?w2 @ new \<and> sends_of new = [] \<Longrightarrow> ?thesis"
  proof -
    assume "\<exists>new. calls w' = calls ?w2 @ new \<and> sends_of new = []"
    then obtain new where n: "calls w' = calls ?w2 @ new" "sends_of new = []" by auto
    with base2 s2 show ?thesis
      by (intro exI [of _ "(n1 @ [Sys_send_ret (ioctl_errno ?g)]) @ new"])
        (simp add: sends_of_append)
  qed
  show ?thesis
  proof (cases "\<exists>c. st1 = Some (Thread_exit c)")
    case True
    with ph assms(4) have "w' = w1" by auto
    with base1 n1 show ?thesis by (intro exI [of _ n1]) simp
  next
    case False
    then have ne: "\<And>c. st1 \<noteq> Some (Thread_exit c)" by simp
    show ?thesis
    proof (cases "ioctl_errno ?g")
      case (Some e)
      with ph ne assms(4) have "leave_unjoined (Fail (- e)) st1 (reads_after ?g) ?w2 = (r, w')"
        by (auto split: option.splits thread_status.splits)
      from leave_unjoined_sends [OF this] show ?thesis by (intro ext) simp
    next
      case None
      show ?thesis
      proof (cases "pthread_join_err E subvol")
        case (Some e)
        with ph ne None assms(4)
        have "leave_unjoined (Fail (- e)) st1 (reads_after ?g) ?w2 = (r, w')"
          by (auto split: option.splits thread_status.splits)
        from leave_unjoined_sends [OF this] show ?thesis by (intro ext) simp
      next
        case jn: None
        show ?thesis
        proof (cases st1)
          case (Some st)
          with ph ne None jn assms(4) have "w' = ?w2"
            by (auto split: option.splits thread_status.splits if_splits)
          then show ?thesis by (intro ext exI [of _ "[]"]) simp
        next
          case st: None
          obtain st3 w3 where d3: "dump_thread_closed (reads_after ?g) ?w2 = (st3, w3)" by force
          with ph None jn st assms(4) have "w' = w3"
            by (auto split: option.splits thread_status.splits if_splits)
          with dump_thread_closed_sends [OF d3] show ?thesis by (intro ext) simp
        qed
      qed
    qed
  qed
qed

lemma do_send_outcome:
  assumes "open_errno E subvol = None"
    and "pipe_errno E subvol = None"
    and "pthread_create_err E subvol = None"
    and "g = ioctl_send E subvol (do_send_args s p f l flags)"
    and "w0 = w\<lparr>calls := calls w @ [Sys_send subvol (do_send_args s p f l flags)]\<rparr>"
  shows "(\<forall>c. fst (dump_thread (reads_during g) w0) = Some (Thread_exit c) \<longrightarrow>
            do_send E s p f l subvol flags w
              = (Inl (Exit_proc c), snd (dump_thread (reads_during g) w0)) \<and>
            (\<forall>q. Sys_send_ret q \<notin> set (new_calls w (snd (do_send E s p f l subvol flags w))))) \<and>
         (\<forall>c. fst (dump_thread (reads_during g @ reads_after g) w0) = Some (Thread_exit c) \<longrightarrow>
            fst (do_send E s p f l subvol flags w) = Inl (Exit_proc c)) \<and>
         (\<forall>e. ioctl_errno g = Some e \<and>
               (\<forall>c. fst (dump_thread (reads_during g @ reads_after g) w0)
                      \<noteq> Some (Thread_exit c)) \<longrightarrow>
            fst (do_send E s p f l subvol flags w) = Inl (Fail (- e)))"
proof -
  obtain st1 w1 where d1: "dump_thread (reads_during g) w0 = (st1, w1)" by force
  let ?w2 = "w1\<lparr>calls := calls w1 @ [Sys_send_ret (ioctl_errno g)]\<rparr>"
  obtain st2 w3 where d2: "dump_thread (reads_after g) ?w2 = (st2, w3)" by force
  note ph = do_send_phases [OF assms(1-3) assms(4) d1 [unfolded assms(5)] refl]
  have st2: "st2 = fst (dump_thread (reads_after g) w1)"
    using dump_thread_status_log_free [where rs = "reads_after g" and w = w1
        and X = "calls w1 @ [Sys_send_ret (ioctl_errno g)]"] d2 by simp
  have whole: "fst (dump_thread (reads_during g @ reads_after g) w0)
      = (case st1 of None \<Rightarrow> st2 | Some st \<Rightarrow> Some st)"
    using d1 st2 by (simp add: dump_thread_append split: option.splits prod.splits)
  have a: "\<forall>c. fst (dump_thread (reads_during g) w0) = Some (Thread_exit c) \<longrightarrow>
            do_send E s p f l subvol flags w
              = (Inl (Exit_proc c), snd (dump_thread (reads_during g) w0)) \<and>
            (\<forall>q. Sys_send_ret q \<notin> set (new_calls w (snd (do_send E s p f l subvol flags w))))"
  proof (intro allI impI)
    fix c assume "fst (dump_thread (reads_during g) w0) = Some (Thread_exit c)"
    with d1 have s: "st1 = Some (Thread_exit c)" by simp
    with ph have r: "do_send E s p f l subvol flags w = (Inl (Exit_proc c), w1)" by simp
    from dump_thread_sends [OF d1] obtain n1
      where n1: "calls w1 = calls w0 @ n1" "\<forall>q. Sys_send_ret q \<notin> set n1" by auto
    then have "new_calls w w1 = Sys_send subvol (do_send_args s p f l flags) # n1"
      by (simp add: new_calls_def assms(5))
    with n1 r d1 show "do_send E s p f l subvol flags w
              = (Inl (Exit_proc c), snd (dump_thread (reads_during g) w0)) \<and>
            (\<forall>q. Sys_send_ret q \<notin> set (new_calls w (snd (do_send E s p f l subvol flags w))))"
      by simp
  qed
  have b: "\<forall>c. fst (dump_thread (reads_during g @ reads_after g) w0) = Some (Thread_exit c) \<longrightarrow>
            fst (do_send E s p f l subvol flags w) = Inl (Exit_proc c)"
  proof (intro allI impI)
    fix c assume "fst (dump_thread (reads_during g @ reads_after g) w0) = Some (Thread_exit c)"
    with whole have c: "(case st1 of None \<Rightarrow> st2 | Some st \<Rightarrow> Some st) = Some (Thread_exit c)"
      by simp
    show "fst (do_send E s p f l subvol flags w) = Inl (Exit_proc c)"
    proof (cases st1)
      case (Some st)
      with c ph show ?thesis by simp
    next
      case None
      with c have "st2 = Some (Thread_exit c)" by simp
      with None ph d2 show ?thesis
        by (simp add: leave_unjoined_def dump_thread_closed_def split: option.splits)
    qed
  qed
  have c: "\<forall>e. ioctl_errno g = Some e \<and>
               (\<forall>c. fst (dump_thread (reads_during g @ reads_after g) w0)
                      \<noteq> Some (Thread_exit c)) \<longrightarrow>
            fst (do_send E s p f l subvol flags w) = Inl (Fail (- e))"
  proof (intro allI impI, elim conjE)
    fix e assume e: "ioctl_errno g = Some e"
      and n: "\<forall>c. fst (dump_thread (reads_during g @ reads_after g) w0) \<noteq> Some (Thread_exit c)"
    from n whole have n': "\<And>c. (case st1 of None \<Rightarrow> st2 | Some st \<Rightarrow> Some st)
        \<noteq> Some (Thread_exit c)" by simp
    show "fst (do_send E s p f l subvol flags w) = Inl (Fail (- e))"
    proof (cases st1)
      case (Some st)
      with n' have "st \<noteq> Thread_exit c" for c by simp
      then obtain t where "st = Thread_return t" by (cases st) auto
      with Some ph e show ?thesis by (simp add: leave_unjoined_def)
    next
      case None
      with n' have "\<And>c. st2 \<noteq> Some (Thread_exit c)" by simp
      with None ph e d2 show ?thesis
        by (auto simp: leave_unjoined_def split: option.splits thread_status.splits)
    qed
  qed
  from a b c show ?thesis by (intro conjI)
qed

section \<open>Failure of the drain thread and of the ioctl\<close>




section \<open>The variables and the log of the command\<close>

lemma cmd_send_opt_vars:
  "cmd_send_opt E v x = Inr v' \<Longrightarrow>
     new_end_cmd_semantic v' = (new_end_cmd_semantic v \<or> x = Opt_e) \<and>
     send_flags v' \<subseteq> send_flags v \<union> {BTRFS_SEND_FLAG_NO_FILE_DATA}"
  by (cases x) (auto split: sum.splits option.splits if_splits prod.splits)

lemma cmd_send_opts_vars:
  "cmd_send_opts E v opts = Inr v' \<Longrightarrow>
     new_end_cmd_semantic v' = (new_end_cmd_semantic v \<or> Opt_e \<in> set opts) \<and>
     send_flags v' \<subseteq> send_flags v \<union> {BTRFS_SEND_FLAG_NO_FILE_DATA}"
proof (induction opts arbitrary: v)
  case Nil
  then show ?case by auto
next
  case (Cons x xs)
  from Cons.prems obtain v1 where s: "cmd_send_opt E v x = Inr v1"
    and r: "cmd_send_opts E v1 xs = Inr v'"
    by (auto split: sum.splits)
  from cmd_send_opt_vars [OF s] Cons.IH [OF r] show ?case by auto
qed

lemma cmd_send_prepare_vars:
  "cmd_send_prepare E v args = Inr v' \<Longrightarrow>
     new_end_cmd_semantic v' = new_end_cmd_semantic v \<and> send_flags v' = send_flags v"
  by (auto simp: cmd_send_prepare_def split: list.splits option.splits sum.splits if_splits prod.splits)

lemma cmd_send_setup_vars:
  assumes "cmd_send_setup E opts args = Inr v"
  shows "new_end_cmd_semantic v = (Opt_e \<in> set opts) \<and>
         send_flags v \<subseteq> {BTRFS_SEND_FLAG_NO_FILE_DATA}"
proof -
  from assms obtain v1 where o: "cmd_send_opts E cmd_send_init opts = Inr v1"
    and p: "cmd_send_prepare E v1 args = Inr v"
    by (auto simp: cmd_send_setup_def split: sum.splits)
  from cmd_send_opts_vars [OF o] cmd_send_prepare_vars [OF p]
  show ?thesis by (simp add: cmd_send_init_def)
qed

lemma send_subvol_log:
  assumes "send_subvol T v n i a w = (r, w')"
  shows "(w' = w \<and> isl r) \<or>
         (\<exists>subvol pr rest. realpath (T (At_resolve i)) a = Inr subvol \<and>
            calls w' = calls w @
              Sys_send subvol
                (do_send_args (send v) pr (new_end_cmd_semantic v \<longrightarrow> i = 0)
                   (new_end_cmd_semantic v \<longrightarrow> i = n - 1) (send_flags v)) # rest \<and>
            sends_of rest = [])"
proof (cases "realpath (T (At_resolve i)) a")
  case (Inl e)
  with assms show ?thesis by (auto simp: send_subvol_def)
next
  case (Inr subvol)
  let ?E = "T (At_send i)"
  let ?c = "if \<not> full_send v \<and> parent_root_id v = 0
            then (case find_good_parent (send v) (root_id_var v) of
                    Inl r \<Rightarrow> Inl r
                  | Inr found \<Rightarrow> Inr (v\<lparr>parent_root_id := found\<rparr>))
            else Inr v"
  show ?thesis
  proof (cases ?c)
    case Inl
    with assms Inr show ?thesis by (auto simp: send_subvol_def)
  next
    case v1: (Inr v1)
    then have same: "send v1 = send v" "new_end_cmd_semantic v1 = new_end_cmd_semantic v"
      "send_flags v1 = send_flags v"
      by (auto split: if_splits sum.splits)
    show ?thesis
    proof (cases "is_subvol_ro (T (At_ro_check i)) (send v) subvol")
      case Inl
      with assms Inr v1 same show ?thesis by (auto simp: send_subvol_def)
    next
      case ro: (Inr ro)
      show ?thesis
      proof (cases ro)
        case False
        with assms Inr v1 same ro show ?thesis by (auto simp: send_subvol_def)
      next
        case True
        let ?f = "new_end_cmd_semantic v \<longrightarrow> i = 0"
        let ?l = "new_end_cmd_semantic v \<longrightarrow> i = n - 1"
        obtain rd wd where d: "do_send ?E (send v) (parent_root_id v1) ?f ?l subvol (send_flags v) w
            = (rd, wd)" by force
        have if_eq: "(if new_end_cmd_semantic v then i = 0 else True) = ?f"
          "(if new_end_cmd_semantic v then i = n - 1 else True) = ?l" by simp_all
        from assms Inr v1 same ro True d have w': "w' = wd" and rl: "isl rd \<longrightarrow> isl r"
          by (auto simp: send_subvol_def Let_def if_eq split: sum.splits prod.splits if_splits)
        show ?thesis
        proof (cases "open_errno ?E subvol = None \<and> pipe_errno ?E subvol = None \<and>
                      pthread_create_err ?E subvol = None")
          case False
          with do_send_early [of ?E subvol "send v" "parent_root_id v1" ?f ?l "send_flags v" w] d
          have "wd = w \<and> isl rd" by auto
          with w' rl show ?thesis by simp
        next
          case True
          then have o: "open_errno ?E subvol = None" and p: "pipe_errno ?E subvol = None"
            and t: "pthread_create_err ?E subvol = None" by simp_all
          from do_send_log [OF o p t d] obtain rest
            where "calls wd = calls w @
                Sys_send subvol (do_send_args (send v) (parent_root_id v1) ?f ?l (send_flags v))
                  # rest \<and> sends_of rest = []" ..
          with w' Inr show ?thesis
            by (intro disjI2 exI [of _ subvol] exI [of _ "parent_root_id v1"] exI [of _ rest])
              simp
        qed
      qed
    qed
  qed
qed

lemma send_subvol_sent:
  assumes "send_subvol T v n i a w = (Inr v', w')"
  shows "\<exists>subvol pr rest. realpath (T (At_resolve i)) a = Inr subvol \<and>
            calls w' = calls w @
              Sys_send subvol
                (do_send_args (send v) pr (new_end_cmd_semantic v \<longrightarrow> i = 0)
                   (new_end_cmd_semantic v \<longrightarrow> i = n - 1) (send_flags v)) # rest \<and>
            sends_of rest = []"
proof -
  from send_subvol_log [OF assms] show ?thesis
  proof
    assume "w' = w \<and> isl (Inr v' :: failure + cmd_send_vars)"
    then show ?thesis by simp
  qed
qed

lemma send_subvol_vars:
  assumes "send_subvol T v n i a w = (Inr v', w')"
  shows "new_end_cmd_semantic v' = new_end_cmd_semantic v \<and> send_flags v' = send_flags v \<and>
         full_send v' = full_send v \<and> root_id_var v' = root_id_var v \<and>
         parent_root_id v' = 0 \<and> sus (send v') = sus (send v) \<and>
         clone_sources (send v') =
           clone_sources (send v) @ (if full_send v then [] else [root_id_var v])"
  using assms
  by (auto simp: send_subvol_def Let_def add_clone_source_def
      split: sum.splits prod.splits if_splits)

lemma io_flags_args:
  "io_flags (do_send_args s p f l fl) =
     fl \<union> (if \<not> f then {BTRFS_SEND_FLAG_OMIT_STREAM_HEADER} else {})
        \<union> (if \<not> l then {BTRFS_SEND_FLAG_OMIT_END_CMD} else {})"
  "io_clone_sources (do_send_args s p f l fl) = clone_sources s"
  by (simp_all add: do_send_args_def)

lemma item_flags_args:
  "io_flags (do_send_args s p (new_end_cmd_semantic v \<longrightarrow> i = 0)
       (new_end_cmd_semantic v \<longrightarrow> i = n - 1) (send_flags v)) = item_flags v n i"
  by (auto simp: io_flags_args item_flags_def)

lemma send_subvols_log:
  "send_subvols T v n i as w = (r, w') \<Longrightarrow>
     \<exists>new. calls w' = calls w @ new \<and> length (sends_of new) \<le> length as \<and>
       (\<forall>k < length (sends_of new).
          realpath (T (At_resolve (i + k))) (as ! k) = Inr (fst (sends_of new ! k)) \<and>
          io_flags (snd (sends_of new ! k)) = item_flags v n (i + k) \<and>
          set (clone_sources (send v)) \<subseteq> set (io_clone_sources (snd (sends_of new ! k))))"
proof (induction as arbitrary: v i w)
  case Nil
  then show ?case by (intro exI [of _ "[]"]) simp
next
  case (Cons a as)
  obtain r1 w1 where s1: "send_subvol T v n i a w = (r1, w1)" by force
  show ?case
  proof (cases r1)
    case (Inl f)
    with s1 Cons.prems have w': "w' = w1" by simp
    from send_subvol_log [OF s1] show ?thesis
    proof
      assume "w1 = w \<and> isl r1"
      with w' show ?thesis by (intro exI [of _ "[]"]) simp
    next
      assume "\<exists>subvol pr rest. realpath (T (At_resolve i)) a = Inr subvol \<and>
            calls w1 = calls w @
              Sys_send subvol
                (do_send_args (send v) pr (new_end_cmd_semantic v \<longrightarrow> i = 0)
                   (new_end_cmd_semantic v \<longrightarrow> i = n - 1) (send_flags v)) # rest \<and>
            sends_of rest = []"
      then obtain subvol pr rest where c: "calls w1 = calls w @
              Sys_send subvol
                (do_send_args (send v) pr (new_end_cmd_semantic v \<longrightarrow> i = 0)
                   (new_end_cmd_semantic v \<longrightarrow> i = n - 1) (send_flags v)) # rest"
        and e: "sends_of rest = []" and rp: "realpath (T (At_resolve i)) a = Inr subvol" by auto
      let ?io = "do_send_args (send v) pr (new_end_cmd_semantic v \<longrightarrow> i = 0)
                   (new_end_cmd_semantic v \<longrightarrow> i = n - 1) (send_flags v)"
      have fl: "io_flags ?io = item_flags v n i" by (rule item_flags_args)
      have cl: "io_clone_sources ?io = clone_sources (send v)" by (rule io_flags_args(2))
      from c e w' fl cl rp show ?thesis
        by (intro exI [of _ "Sys_send subvol ?io # rest"]) simp
    qed
  next
    case (Inr v1)
    with s1 Cons.prems have rec: "send_subvols T v1 n (Suc i) as w1 = (r, w')" by simp
    from s1 Inr have s1': "send_subvol T v n i a w = (Inr v1, w1)" by simp
    from send_subvol_sent [OF s1'] obtain subvol pr rest where c: "calls w1 = calls w @
              Sys_send subvol
                (do_send_args (send v) pr (new_end_cmd_semantic v \<longrightarrow> i = 0)
                   (new_end_cmd_semantic v \<longrightarrow> i = n - 1) (send_flags v)) # rest"
        and e: "sends_of rest = []" and rp: "realpath (T (At_resolve i)) a = Inr subvol" by auto
    let ?io = "do_send_args (send v) pr (new_end_cmd_semantic v \<longrightarrow> i = 0)
                   (new_end_cmd_semantic v \<longrightarrow> i = n - 1) (send_flags v)"
    have fl: "io_flags ?io = item_flags v n i" by (rule item_flags_args)
    have cl: "io_clone_sources ?io = clone_sources (send v)" by (rule io_flags_args(2))
    from send_subvol_vars [OF s1'] have vars: "item_flags v1 n = item_flags v n"
      and sub: "set (clone_sources (send v)) \<subseteq> set (clone_sources (send v1))"
      by (auto simp: item_flags_def fun_eq_iff)
    from Cons.IH [OF rec] obtain n2 where IH: "calls w' = calls w1 @ n2 \<and>
        length (sends_of n2) \<le> length as \<and>
        (\<forall>k < length (sends_of n2).
          realpath (T (At_resolve (Suc i + k))) (as ! k) = Inr (fst (sends_of n2 ! k)) \<and>
          io_flags (snd (sends_of n2 ! k)) = item_flags v1 n (Suc i + k) \<and>
          set (clone_sources (send v1)) \<subseteq> set (io_clone_sources (snd (sends_of n2 ! k))))" ..
    let ?new = "(Sys_send subvol ?io # rest) @ n2"
    have so: "sends_of ?new = (subvol, ?io) # sends_of n2" using e by (simp add: sends_of_append)
    have a: "calls w' = calls w @ ?new" using IH c by simp
    have b: "length (sends_of ?new) \<le> length (a # as)" using IH so by simp
    have d: "\<forall>k < length (sends_of ?new).
          realpath (T (At_resolve (i + k))) ((a # as) ! k) = Inr (fst (sends_of ?new ! k)) \<and>
          io_flags (snd (sends_of ?new ! k)) = item_flags v n (i + k) \<and>
          set (clone_sources (send v)) \<subseteq> set (io_clone_sources (snd (sends_of ?new ! k)))"
    proof (intro allI impI)
      fix k assume k: "k < length (sends_of ?new)"
      show "realpath (T (At_resolve (i + k))) ((a # as) ! k) = Inr (fst (sends_of ?new ! k)) \<and>
          io_flags (snd (sends_of ?new ! k)) = item_flags v n (i + k) \<and>
          set (clone_sources (send v)) \<subseteq> set (io_clone_sources (snd (sends_of ?new ! k)))"
      proof (cases k)
        case 0
        with fl cl rp show ?thesis unfolding so by simp
      next
        case (Suc j)
        with k so have j: "j < length (sends_of n2)" by simp
        with IH have "realpath (T (At_resolve (Suc i + j))) (as ! j) = Inr (fst (sends_of n2 ! j))"
          and "io_flags (snd (sends_of n2 ! j)) = item_flags v1 n (Suc i + j)"
          and "set (clone_sources (send v1)) \<subseteq> set (io_clone_sources (snd (sends_of n2 ! j)))"
          by simp_all
        with Suc vars sub show ?thesis unfolding so by auto
      qed
    qed
    from a b d show ?thesis by (intro exI [of _ ?new] conjI)
  qed
qed

lemma announce_mode_calls: "calls (announce_mode v w) = calls w"
  by (simp add: announce_mode_def)

lemma cmd_send_log:
  "(\<exists>f. cmd_send_setup (T At_setup) opts args = Inl f \<and> cmd_send T opts args w = (Inl f, w)) \<or>
   (\<exists>v new. cmd_send_setup (T At_setup) opts args = Inr v \<and>
      new_calls w (snd (cmd_send T opts args w)) = new \<and>
      length (sends_of new) \<le> length args \<and>
      (\<forall>k < length (sends_of new).
          realpath (T (At_resolve k)) (args ! k) = Inr (fst (sends_of new ! k)) \<and>
          io_flags (snd (sends_of new ! k)) = item_flags v (length args) k \<and>
          set (clone_sources (send v)) \<subseteq> set (io_clone_sources (snd (sends_of new ! k)))))"
proof (cases "cmd_send_setup (T At_setup) opts args")
  case (Inl f)
  then show ?thesis by (simp add: cmd_send_def)
next
  case (Inr v)
  obtain r w' where l: "send_subvols T v (length args) 0 args (announce_mode v w) = (r, w')"
    by force
  from send_subvols_log [OF l] obtain new where n: "calls w' = calls (announce_mode v w) @ new \<and>
      length (sends_of new) \<le> length args \<and>
       (\<forall>k < length (sends_of new).
          realpath (T (At_resolve (0 + k))) (args ! k) = Inr (fst (sends_of new ! k)) \<and>
          io_flags (snd (sends_of new ! k)) = item_flags v (length args) (0 + k) \<and>
          set (clone_sources (send v)) \<subseteq> set (io_clone_sources (snd (sends_of new ! k))))" ..
  from Inr l have "snd (cmd_send T opts args w) = w'"
    by (simp add: cmd_send_def split: sum.splits)
  with n have "new_calls w (snd (cmd_send T opts args w)) = new"
    by (simp add: new_calls_def announce_mode_calls)
  with n Inr show ?thesis by simp
qed

section \<open>Framing flags\<close>

text \<open>
  C5. In every run of the command the \<open>k\<close>-th send ioctl is made on the \<open>k\<close>-th subvolume
  argument, and its flags depend on \<open>k\<close> and on the option \<^verbatim>\<open>-e\<close> alone: the stream
  header is omitted exactly when \<^verbatim>\<open>-e\<close> was given and the item is not the first, the end
  command exactly when \<^verbatim>\<open>-e\<close> was given and the item is not the last.
\<close>

theorem cmd_send_framing:
  "\<forall>k < length (sends_of (new_calls w (snd (cmd_send T opts args w)))).
     realpath (T (At_resolve k)) (args ! k)
       = Inr (fst (sends_of (new_calls w (snd (cmd_send T opts args w))) ! k)) \<and>
     (BTRFS_SEND_FLAG_OMIT_STREAM_HEADER
        \<in> io_flags (snd (sends_of (new_calls w (snd (cmd_send T opts args w))) ! k))
      \<longleftrightarrow> Opt_e \<in> set opts \<and> k \<noteq> 0) \<and>
     (BTRFS_SEND_FLAG_OMIT_END_CMD
        \<in> io_flags (snd (sends_of (new_calls w (snd (cmd_send T opts args w))) ! k))
      \<longleftrightarrow> Opt_e \<in> set opts \<and> k \<noteq> length args - 1)"
proof -
  from cmd_send_log [of T opts args w] show ?thesis
  proof
    assume "\<exists>f. cmd_send_setup (T At_setup) opts args = Inl f \<and> cmd_send T opts args w = (Inl f, w)"
    then show ?thesis by (auto simp: new_calls_def)
  next
    assume "\<exists>v new. cmd_send_setup (T At_setup) opts args = Inr v \<and>
      new_calls w (snd (cmd_send T opts args w)) = new \<and>
      length (sends_of new) \<le> length args \<and>
      (\<forall>k < length (sends_of new).
          realpath (T (At_resolve k)) (args ! k) = Inr (fst (sends_of new ! k)) \<and>
          io_flags (snd (sends_of new ! k)) = item_flags v (length args) k \<and>
          set (clone_sources (send v)) \<subseteq> set (io_clone_sources (snd (sends_of new ! k))))"
    then obtain v where s: "cmd_send_setup (T At_setup) opts args = Inr v"
      and f: "\<forall>k < length (sends_of (new_calls w (snd (cmd_send T opts args w)))).
          realpath (T (At_resolve k)) (args ! k)
            = Inr (fst (sends_of (new_calls w (snd (cmd_send T opts args w))) ! k)) \<and>
          io_flags (snd (sends_of (new_calls w (snd (cmd_send T opts args w))) ! k))
            = item_flags v (length args) k"
      by auto
    from cmd_send_setup_vars [OF s] have "new_end_cmd_semantic v = (Opt_e \<in> set opts)"
      and "send_flags v \<subseteq> {BTRFS_SEND_FLAG_NO_FILE_DATA}" by simp_all
    then have "\<And>k. (BTRFS_SEND_FLAG_OMIT_STREAM_HEADER \<in> item_flags v (length args) k
          \<longleftrightarrow> Opt_e \<in> set opts \<and> k \<noteq> 0) \<and>
        (BTRFS_SEND_FLAG_OMIT_END_CMD \<in> item_flags v (length args) k
          \<longleftrightarrow> Opt_e \<in> set opts \<and> k \<noteq> length args - 1)"
      by (auto simp: item_flags_def)
    with f show ?thesis by simp
  qed
qed

lemma run_e_length:
  "length (sends_of (new_calls world_init
     (snd (cmd_send (steady env_example) [Opt_e] [''/mnt/P'', ''/mnt/S1'', ''/mnt/S2''] world_init)))) = 3"
  by code_simp

theorem cmd_send_framing_witness:
  "realpath (steady env_example (At_resolve 1)) ([''/mnt/P'', ''/mnt/S1'', ''/mnt/S2''] ! 1)
     = Inr (fst (sends_of (new_calls world_init
          (snd (cmd_send (steady env_example) [Opt_e] [''/mnt/P'', ''/mnt/S1'', ''/mnt/S2'']
                  world_init))) ! 1)) \<and>
   BTRFS_SEND_FLAG_OMIT_STREAM_HEADER
     \<in> io_flags (snd (sends_of (new_calls world_init
          (snd (cmd_send (steady env_example) [Opt_e] [''/mnt/P'', ''/mnt/S1'', ''/mnt/S2'']
                  world_init))) ! 1)) \<and>
   BTRFS_SEND_FLAG_OMIT_END_CMD
     \<in> io_flags (snd (sends_of (new_calls world_init
          (snd (cmd_send (steady env_example) [Opt_e] [''/mnt/P'', ''/mnt/S1'', ''/mnt/S2'']
                  world_init))) ! 1))"
  using cmd_send_framing [of world_init "steady env_example" "[Opt_e]"
      "[''/mnt/P'', ''/mnt/S1'', ''/mnt/S2'']", rule_format, of 1] run_e_length
  by simp

section \<open>A failing item ends the session\<close>

lemma send_subvols_append:
  "send_subvols T v n i (as @ bs) w =
     (case send_subvols T v n i as w of
        (Inl f, w') \<Rightarrow> (Inl f, w')
      | (Inr v', w') \<Rightarrow> send_subvols T v' n (i + length as) bs w')"
  by (induction as arbitrary: v i w) (auto split: prod.splits sum.splits)

lemma is_subvol_ro_checked:
  "is_subvol_ro E s subvol = Inr True \<longleftrightarrow> checked_read_only E subvol"
  by (auto simp: is_subvol_ro_def checked_read_only_def split: option.splits sum.splits)

lemma do_send_fails:
  assumes "send_fails E subvol (do_send_args s p f l flags) w"
  shows "isl (fst (do_send E s p f l subvol flags w))"
proof (cases "open_errno E subvol = None \<and> pipe_errno E subvol = None \<and>
              pthread_create_err E subvol = None")
  case False
  with do_send_early [of E subvol s p f l flags w] show ?thesis by auto
next
  case True
  then have o: "open_errno E subvol = None" and pp: "pipe_errno E subvol = None"
    and t: "pthread_create_err E subvol = None" by simp_all
  let ?io = "do_send_args s p f l flags"
  let ?g = "ioctl_send E subvol ?io"
  let ?w0 = "w\<lparr>calls := calls w @ [Sys_send subvol ?io]\<rparr>"
  let ?all = "reads_during ?g @ reads_after ?g"
  note out = do_send_outcome [OF o pp t refl refl, of s p f l flags w]
  show ?thesis
  proof (cases "\<exists>c. fst (dump_thread ?all ?w0) = Some (Thread_exit c)")
    case True
    with out show ?thesis by auto
  next
    case False
    then have nex: "\<forall>c. fst (dump_thread ?all ?w0) \<noteq> Some (Thread_exit c)" by simp
    have "fst (dump_thread ?all ?w0) = fst (dump_thread ?all w)"
      by (rule dump_thread_status_log_free)
    with nex have "\<not> drain_fails ?g w"
      by (auto simp: drain_fails_def split: option.splits thread_status.splits)
    with assms True have c: "ioctl_errno ?g \<noteq> None \<or> pthread_join_err E subvol \<noteq> None"
      by (simp add: send_fails_def)
    show ?thesis
    proof (cases "ioctl_errno ?g")
      case (Some e)
      with out nex show ?thesis by simp
    next
      case None
      with c obtain e where j: "pthread_join_err E subvol = Some e" by auto
      obtain st1 w1 where d1: "dump_thread (reads_during ?g) ?w0 = (st1, w1)" by force
      note ph = do_send_phases [OF o pp t refl d1 refl]
      obtain r w' where lu: "leave_unjoined (Fail (- e)) st1 (reads_after ?g)
          (w1\<lparr>calls := calls w1 @ [Sys_send_ret (ioctl_errno ?g)]\<rparr>) = (r, w')" by force
      from leave_unjoined_sends [OF lu] have "isl r" by simp
      with ph None j lu show ?thesis
        by (auto split: option.splits thread_status.splits)
    qed
  qed
qed

lemma send_subvol_fails:
  assumes "item_step_fails T v n i a w"
  shows "isl (fst (send_subvol T v n i a w))"
proof (cases "realpath (T (At_resolve i)) a")
  case (Inl e)
  then show ?thesis by (simp add: send_subvol_def)
next
  case (Inr subvol)
  show ?thesis
  proof (cases "item_parent v")
    case (Inl r)
    with Inr show ?thesis
      by (auto simp: send_subvol_def item_parent_def split: if_splits sum.splits)
  next
    case pr: (Inr pr)
    obtain v1 where c: "(if \<not> full_send v \<and> parent_root_id v = 0
            then (case find_good_parent (send v) (root_id_var v) of
                    Inl r \<Rightarrow> Inl r
                  | Inr found \<Rightarrow> Inr (v\<lparr>parent_root_id := found\<rparr>))
            else Inr v) = Inr v1"
      and v1: "send v1 = send v" "new_end_cmd_semantic v1 = new_end_cmd_semantic v"
        "send_flags v1 = send_flags v" "full_send v1 = full_send v"
        "root_id_var v1 = root_id_var v" "parent_root_id v1 = pr"
    proof (cases "\<not> full_send v \<and> parent_root_id v = 0")
      case True
      with pr that [of "v\<lparr>parent_root_id := pr\<rparr>"] show ?thesis
        by (simp add: item_parent_def)
    next
      case False
      with pr that [of v] show ?thesis by (auto simp: item_parent_def)
    qed
    let ?f = "new_end_cmd_semantic v \<longrightarrow> i = 0"
    let ?l = "new_end_cmd_semantic v \<longrightarrow> i = n - 1"
    have if_eq: "(if new_end_cmd_semantic v then i = 0 else True) = ?f"
      "(if new_end_cmd_semantic v then i = n - 1 else True) = ?l" by simp_all
    obtain rd wd where d: "do_send (T (At_send i)) (send v) pr ?f ?l subvol (send_flags v) w
        = (rd, wd)" by force
    from assms Inr pr have steps:
      "\<not> checked_read_only (T (At_ro_check i)) subvol \<or>
       send_fails (T (At_send i)) subvol (do_send_args (send v) pr ?f ?l (send_flags v)) w \<or>
       (\<not> full_send v \<and> realloc_fails (T (At_add i)) (length (clone_sources (send v)) + 1))"
      by (simp add: item_step_fails_def del: One_nat_def)
    show ?thesis
    proof (cases "is_subvol_ro (T (At_ro_check i)) (send v) subvol")
      case (Inl r)
      with Inr c v1 show ?thesis by (simp add: send_subvol_def)
    next
      case ro: (Inr ro)
      show ?thesis
      proof (cases ro)
        case False
        with Inr c v1 ro show ?thesis by (simp add: send_subvol_def)
      next
        case True
        with ro have "is_subvol_ro (T (At_ro_check i)) (send v) subvol = Inr True" by simp
        then have "checked_read_only (T (At_ro_check i)) subvol"
          by (rule is_subvol_ro_checked [THEN iffD1])
        with steps have rest:
          "send_fails (T (At_send i)) subvol (do_send_args (send v) pr ?f ?l (send_flags v)) w \<or>
           (\<not> full_send v \<and> realloc_fails (T (At_add i)) (length (clone_sources (send v)) + 1))"
          by simp
        show ?thesis
        proof (cases rd)
          case (Inl f)
          with Inr c v1 ro True d show ?thesis
            by (simp add: send_subvol_def Let_def if_eq del: One_nat_def)
        next
          case u: (Inr u)
          with do_send_fails [of "T (At_send i)" subvol "send v" pr ?f ?l "send_flags v" w] d
          have "\<not> send_fails (T (At_send i)) subvol
                    (do_send_args (send v) pr ?f ?l (send_flags v)) w"
            by auto
          with rest have "\<not> full_send v"
            "realloc_fails (T (At_add i)) (length (clone_sources (send v)) + 1)" by simp_all
          with Inr c v1 ro True d u show ?thesis
            by (simp add: send_subvol_def Let_def if_eq add_clone_source_def
                del: One_nat_def)
        qed
      qed
    qed
  qed
qed

text \<open>
  C8. Let the command reach its second loop, let the passes for the arguments \<open>as\<close> succeed,
  and let a step of the pass for the next argument \<open>a\<close> fail in the system as it is at
  that moment, whatever it was when the command line was checked: the path does not
  resolve, the parent is not found, the subvolume does not open or is not read-only, the
  pipe or the thread cannot be made, the ioctl returns an error, the drain thread ends by
  \<^verbatim>\<open>exit\<close>, the thread cannot be joined, or the clone-source array cannot grow. Then
  the pass fails, and the command ends with that failure in the state in which the pass left
  the process: nothing is done for the arguments \<open>bs\<close> after it, and the run has made at
  most one send ioctl for each of \<open>as\<close> and \<open>a\<close>.
\<close>

theorem cmd_send_aborts_batch:
  assumes "cmd_send_setup (T At_setup) opts (as @ a # bs) = Inr v"
    and "send_subvols T v (length (as @ a # bs)) 0 as (announce_mode v w) = (Inr v1, w1)"
    and "item_step_fails T v1 (length (as @ a # bs)) (length as) a w1"
  shows "\<exists>f. send_subvol T v1 (length (as @ a # bs)) (length as) a w1
                = (Inl f, snd (send_subvol T v1 (length (as @ a # bs)) (length as) a w1)) \<and>
              cmd_send T opts (as @ a # bs) w
                = (Inl f, snd (send_subvol T v1 (length (as @ a # bs)) (length as) a w1)) \<and>
              length (sends_of (new_calls w (snd (cmd_send T opts (as @ a # bs) w))))
                \<le> Suc (length as)"
proof -
  let ?n = "length (as @ a # bs)"
  from send_subvol_fails [OF assms(3)]
  obtain f w2 where s: "send_subvol T v1 ?n (length as) a w1 = (Inl f, w2)"
    by (cases "send_subvol T v1 ?n (length as) a w1") (auto simp: isl_def)
  have "send_subvols T v ?n 0 (as @ a # bs) (announce_mode v w)
          = send_subvols T v1 ?n (length as) (a # bs) w1"
    using assms(2) by (simp add: send_subvols_append)
  also have "\<dots> = (Inl f, w2)" using s by simp
  finally have run: "cmd_send T opts (as @ a # bs) w = (Inl f, w2)"
    using assms(1) by (simp add: cmd_send_def)
  from send_subvols_log [OF assms(2)] obtain new1
    where n1: "calls w1 = calls (announce_mode v w) @ new1"
      and l1: "length (sends_of new1) \<le> length as" by auto
  have "\<exists>new2. calls w2 = calls w1 @ new2 \<and> length (sends_of new2) \<le> 1"
  proof -
    from send_subvol_log [OF s] show ?thesis
    proof
      assume "w2 = w1 \<and> isl (Inl f :: failure + cmd_send_vars)"
      then show ?thesis by (intro exI [of _ "[]"]) simp
    next
      assume "\<exists>subvol pr rest. realpath (T (At_resolve (length as))) a = Inr subvol \<and>
            calls w2 = calls w1 @
              Sys_send subvol
                (do_send_args (send v1) pr (new_end_cmd_semantic v1 \<longrightarrow> length as = 0)
                   (new_end_cmd_semantic v1 \<longrightarrow> length as = ?n - 1) (send_flags v1)) # rest \<and>
            sends_of rest = []"
      then obtain subvol pr rest where "calls w2 = calls w1 @
              Sys_send subvol
                (do_send_args (send v1) pr (new_end_cmd_semantic v1 \<longrightarrow> length as = 0)
                   (new_end_cmd_semantic v1 \<longrightarrow> length as = ?n - 1) (send_flags v1)) # rest"
        and "sends_of rest = []" by auto
      then show ?thesis
        by (intro exI [of _ "Sys_send subvol
                (do_send_args (send v1) pr (new_end_cmd_semantic v1 \<longrightarrow> length as = 0)
                   (new_end_cmd_semantic v1 \<longrightarrow> length as = ?n - 1) (send_flags v1)) # rest"])
          simp
    qed
  qed
  then obtain new2 where n2: "calls w2 = calls w1 @ new2" and l2: "length (sends_of new2) \<le> 1"
    by auto
  from n1 n2 have "new_calls w w2 = new1 @ new2"
    by (simp add: new_calls_def announce_mode_calls)
  with l1 l2 have "length (sends_of (new_calls w w2)) \<le> Suc (length as)"
    by (simp add: sends_of_append)
  with s run show ?thesis by (intro exI [of _ f]) simp
qed

theorem cmd_send_aborts_batch_witness:
  "item_step_fails timeline_gone vars_full 3 1 ''/mnt/S1'' world_after_P \<and>
   cmd_send timeline_gone [] [''/mnt/P'', ''/mnt/S1'', ''/mnt/S2''] world_init
     = (Inl (Fail (- 2)), world_after_P) \<and>
   item_step_fails timeline_writable vars_full 3 1 ''/mnt/S1'' world_after_P \<and>
   cmd_send timeline_writable [] [''/mnt/P'', ''/mnt/S1'', ''/mnt/S2''] world_init
     = (Inl (Fail (- 22)), world_after_P) \<and>
   item_step_fails timeline_ioctl vars_full 3 1 ''/mnt/S1'' world_after_P \<and>
   fst (cmd_send timeline_ioctl [] [''/mnt/P'', ''/mnt/S1'', ''/mnt/S2''] world_init)
     = Inl (Fail (- 22)) \<and>
   map fst (sends_of (new_calls world_init
       (snd (cmd_send timeline_ioctl [] [''/mnt/P'', ''/mnt/S1'', ''/mnt/S2''] world_init))))
     = [''/mnt/P'', ''/mnt/S1''] \<and>
   item_step_fails timeline_drain vars_full 3 1 ''/mnt/S1'' world_after_P \<and>
   fst (cmd_send timeline_drain [] [''/mnt/P'', ''/mnt/S1'', ''/mnt/S2''] world_init)
     = Inl (Exit_proc 5) \<and>
   map fst (sends_of (new_calls world_init
       (snd (cmd_send timeline_drain [] [''/mnt/P'', ''/mnt/S1'', ''/mnt/S2''] world_init))))
     = [''/mnt/P'', ''/mnt/S1''] \<and>
   item_step_fails (steady env_example) vars_p_after 2 1 ''/mnt/S2'' world_after_S1 \<and>
   cmd_send (steady env_example) [Opt_p ''/mnt/P''] [''/mnt/S1'', ''/mnt/S2''] world_init
     = (Inl (Fail (- ENOENT)), world_after_S1) \<and>
   item_step_fails timeline_nomem vars_p 2 0 ''/mnt/S1'' world_init \<and>
   fst (cmd_send timeline_nomem [Opt_p ''/mnt/P''] [''/mnt/S1'', ''/mnt/S2''] world_init)
     = Inl (Fail (- ENOMEM)) \<and>
   map fst (sends_of (new_calls world_init
       (snd (cmd_send timeline_nomem [Opt_p ''/mnt/P''] [''/mnt/S1'', ''/mnt/S2'']
               world_init))))
     = [''/mnt/S1'']"
proof -
  let ?as = "[''/mnt/P'']"
  let ?args = "?as @ ''/mnt/S1'' # [''/mnt/S2'']"
  have g1: "cmd_send_setup (timeline_gone At_setup) [] ?args = Inr vars_full" by code_simp
  have g2: "send_subvols timeline_gone vars_full (length ?args) 0 ?as
              (announce_mode vars_full world_init) = (Inr vars_full, world_after_P)"
    by code_simp
  have g3: "item_step_fails timeline_gone vars_full (length ?args) (length ?as) ''/mnt/S1''
              world_after_P" by code_simp
  have gr: "send_subvol timeline_gone vars_full (length ?args) (length ?as) ''/mnt/S1''
              world_after_P = (Inl (Fail (- 2)), world_after_P)" by code_simp
  have w1: "cmd_send_setup (timeline_writable At_setup) [] ?args = Inr vars_full" by code_simp
  have w2: "send_subvols timeline_writable vars_full (length ?args) 0 ?as
              (announce_mode vars_full world_init) = (Inr vars_full, world_after_P)"
    by code_simp
  have w3: "item_step_fails timeline_writable vars_full (length ?args) (length ?as) ''/mnt/S1''
              world_after_P" by code_simp
  have wr: "send_subvol timeline_writable vars_full (length ?args) (length ?as) ''/mnt/S1''
              world_after_P = (Inl (Fail (- 22)), world_after_P)" by code_simp
  have i1: "cmd_send_setup (timeline_ioctl At_setup) [] ?args = Inr vars_full" by code_simp
  have i2: "send_subvols timeline_ioctl vars_full (length ?args) 0 ?as
              (announce_mode vars_full world_init) = (Inr vars_full, world_after_P)"
    by code_simp
  have i3: "item_step_fails timeline_ioctl vars_full (length ?args) (length ?as) ''/mnt/S1''
              world_after_P" by code_simp
  have ir: "fst (send_subvol timeline_ioctl vars_full (length ?args) (length ?as) ''/mnt/S1''
              world_after_P) = Inl (Fail (- 22))" by code_simp
  have d1: "cmd_send_setup (timeline_drain At_setup) [] ?args = Inr vars_full" by code_simp
  have d2: "send_subvols timeline_drain vars_full (length ?args) 0 ?as
              (announce_mode vars_full world_init) = (Inr vars_full, world_after_P)"
    by code_simp
  have d3: "item_step_fails timeline_drain vars_full (length ?args) (length ?as) ''/mnt/S1''
              world_after_P" by code_simp
  have dr: "fst (send_subvol timeline_drain vars_full (length ?args) (length ?as) ''/mnt/S1''
              world_after_P) = Inl (Exit_proc 5)" by code_simp
  have si: "map fst (sends_of (new_calls world_init
       (snd (cmd_send timeline_ioctl [] [''/mnt/P'', ''/mnt/S1'', ''/mnt/S2''] world_init))))
     = [''/mnt/P'', ''/mnt/S1'']" by code_simp
  have sd: "map fst (sends_of (new_calls world_init
       (snd (cmd_send timeline_drain [] [''/mnt/P'', ''/mnt/S1'', ''/mnt/S2''] world_init))))
     = [''/mnt/P'', ''/mnt/S1'']" by code_simp
  from cmd_send_aborts_batch [where T = timeline_gone and w = world_init, OF g1 g2 g3]
  have G: "cmd_send timeline_gone [] [''/mnt/P'', ''/mnt/S1'', ''/mnt/S2''] world_init
     = (Inl (Fail (- 2)), world_after_P)"
    unfolding gr by auto
  from cmd_send_aborts_batch [where T = timeline_writable and w = world_init, OF w1 w2 w3]
  have W: "cmd_send timeline_writable [] [''/mnt/P'', ''/mnt/S1'', ''/mnt/S2''] world_init
     = (Inl (Fail (- 22)), world_after_P)"
    unfolding wr by auto
  from cmd_send_aborts_batch [where T = timeline_ioctl and w = world_init, OF i1 i2 i3]
  obtain fi where
    "send_subvol timeline_ioctl vars_full (length ?args) (length ?as) ''/mnt/S1'' world_after_P
       = (Inl fi, snd (send_subvol timeline_ioctl vars_full (length ?args) (length ?as)
                         ''/mnt/S1'' world_after_P))"
    and ci: "cmd_send timeline_ioctl [] ?args world_init
       = (Inl fi, snd (send_subvol timeline_ioctl vars_full (length ?args) (length ?as)
                         ''/mnt/S1'' world_after_P))"
    by blast
  from arg_cong [OF this(1), of fst] ir have "fi = Fail (- 22)" by simp
  with ci have I: "fst (cmd_send timeline_ioctl [] [''/mnt/P'', ''/mnt/S1'', ''/mnt/S2'']
      world_init) = Inl (Fail (- 22))"
    by simp
  from cmd_send_aborts_batch [where T = timeline_drain and w = world_init, OF d1 d2 d3]
  obtain fd where
    "send_subvol timeline_drain vars_full (length ?args) (length ?as) ''/mnt/S1'' world_after_P
       = (Inl fd, snd (send_subvol timeline_drain vars_full (length ?args) (length ?as)
                         ''/mnt/S1'' world_after_P))"
    and cd: "cmd_send timeline_drain [] ?args world_init
       = (Inl fd, snd (send_subvol timeline_drain vars_full (length ?args) (length ?as)
                         ''/mnt/S1'' world_after_P))"
    by blast
  from arg_cong [OF this(1), of fst] dr have "fd = Exit_proc 5" by simp
  with cd have D: "fst (cmd_send timeline_drain [] [''/mnt/P'', ''/mnt/S1'', ''/mnt/S2'']
      world_init) = Inl (Exit_proc 5)"
    by simp
  have g3': "item_step_fails timeline_gone vars_full 3 1 ''/mnt/S1'' world_after_P"
    by code_simp
  have w3': "item_step_fails timeline_writable vars_full 3 1 ''/mnt/S1'' world_after_P"
    by code_simp
  have i3': "item_step_fails timeline_ioctl vars_full 3 1 ''/mnt/S1'' world_after_P"
    by code_simp
  have d3': "item_step_fails timeline_drain vars_full 3 1 ''/mnt/S1'' world_after_P"
    by code_simp
  let ?bs = "[''/mnt/S1''] @ ''/mnt/S2'' # []"
  have p1: "cmd_send_setup (steady env_example At_setup) [Opt_p ''/mnt/P''] ?bs = Inr vars_p"
    by code_simp
  have p2: "send_subvols (steady env_example) vars_p (length ?bs) 0 [''/mnt/S1'']
              (announce_mode vars_p world_init) = (Inr vars_p_after, world_after_S1)"
    by code_simp
  have p3: "item_step_fails (steady env_example) vars_p_after (length ?bs)
              (length [''/mnt/S1'']) ''/mnt/S2'' world_after_S1" by code_simp
  have pr: "send_subvol (steady env_example) vars_p_after (length ?bs)
              (length [''/mnt/S1'']) ''/mnt/S2'' world_after_S1
            = (Inl (Fail (- ENOENT)), world_after_S1)" by code_simp
  have p3': "item_step_fails (steady env_example) vars_p_after 2 1 ''/mnt/S2'' world_after_S1"
    by code_simp
  from cmd_send_aborts_batch [where T = "steady env_example" and w = world_init,
      OF p1 p2 p3]
  have P: "cmd_send (steady env_example) [Opt_p ''/mnt/P''] [''/mnt/S1'', ''/mnt/S2'']
      world_init = (Inl (Fail (- ENOENT)), world_after_S1)"
    unfolding pr by auto
  let ?cs = "[] @ ''/mnt/S1'' # [''/mnt/S2'']"
  have m1: "cmd_send_setup (timeline_nomem At_setup) [Opt_p ''/mnt/P''] ?cs = Inr vars_p"
    by code_simp
  have m2: "send_subvols timeline_nomem vars_p (length ?cs) 0 []
              (announce_mode vars_p world_init) = (Inr vars_p, world_init)"
    by code_simp
  have m3: "item_step_fails timeline_nomem vars_p (length ?cs) (length ([] :: string list))
              ''/mnt/S1'' world_init" by code_simp
  have mr: "fst (send_subvol timeline_nomem vars_p (length ?cs) (length ([] :: string list))
              ''/mnt/S1'' world_init) = Inl (Fail (- ENOMEM))" by code_simp
  have m3': "item_step_fails timeline_nomem vars_p 2 0 ''/mnt/S1'' world_init" by code_simp
  have sm: "map fst (sends_of (new_calls world_init
       (snd (cmd_send timeline_nomem [Opt_p ''/mnt/P''] [''/mnt/S1'', ''/mnt/S2'']
               world_init)))) = [''/mnt/S1'']" by code_simp
  from cmd_send_aborts_batch [where T = timeline_nomem and w = world_init, OF m1 m2 m3]
  obtain fm where
    "send_subvol timeline_nomem vars_p (length ?cs) (length ([] :: string list)) ''/mnt/S1''
         world_init
       = (Inl fm, snd (send_subvol timeline_nomem vars_p (length ?cs)
                         (length ([] :: string list)) ''/mnt/S1'' world_init))"
    and cm: "cmd_send timeline_nomem [Opt_p ''/mnt/P''] ?cs world_init
       = (Inl fm, snd (send_subvol timeline_nomem vars_p (length ?cs)
                         (length ([] :: string list)) ''/mnt/S1'' world_init))"
    by blast
  from arg_cong [OF this(1), of fst] mr have "fm = Fail (- ENOMEM)" by simp
  with cm have M: "fst (cmd_send timeline_nomem [Opt_p ''/mnt/P''] [''/mnt/S1'', ''/mnt/S2'']
      world_init) = Inl (Fail (- ENOMEM))"
    by simp
  from G W I D P M g3' w3' i3' d3' p3' m3' si sd sm show ?thesis by (intro conjI)
qed

section \<open>The explicit parent as a clone source\<close>

lemma cmd_send_prepare_parent:
  assumes "snapshot_parent v1 = Some sp" and "cmd_send_prepare E v1 args = Inr v2"
  shows "get_root_id (send v2) (subvol_strip_mountpoint E (root_path_str (send v2)) sp)
           = Inr (parent_root_id v2) \<and>
         parent_root_id v2 \<in> set (clone_sources (send v2))"
  using assms
  by (auto simp: cmd_send_prepare_def add_clone_source_def get_root_id_def root_path_str_def
      split: list.splits option.splits sum.splits if_splits prod.splits)

lemma cmd_send_opt_keeps_parent:
  "cmd_send_opt E v x = Inr v' \<Longrightarrow> snapshot_parent v = Some sp \<Longrightarrow> snapshot_parent v' = Some sp"
  by (cases x) (auto split: sum.splits option.splits if_splits prod.splits)

lemma cmd_send_opts_keeps_parent:
  "cmd_send_opts E v opts = Inr v' \<Longrightarrow> snapshot_parent v = Some sp \<Longrightarrow>
     snapshot_parent v' = Some sp"
proof (induction opts arbitrary: v)
  case Nil
  then show ?case by simp
next
  case (Cons x xs)
  from Cons.prems(1) obtain v1 where s: "cmd_send_opt E v x = Inr v1"
    and r: "cmd_send_opts E v1 xs = Inr v'"
    by (auto split: sum.splits)
  from cmd_send_opt_keeps_parent [OF s Cons.prems(2)] Cons.IH [OF r] show ?case by simp
qed

lemma cmd_send_opt_sets_parent:
  "cmd_send_opt E v (Opt_p p) = Inr v' \<Longrightarrow>
     \<exists>sp. realpath E p = Inr sp \<and> snapshot_parent v' = Some sp"
  by (auto split: sum.splits option.splits if_splits)

lemma cmd_send_opts_parent:
  "cmd_send_opts E v opts = Inr v' \<Longrightarrow> Opt_p p \<in> set opts \<Longrightarrow>
     \<exists>sp. realpath E p = Inr sp \<and> snapshot_parent v' = Some sp"
proof (induction opts arbitrary: v)
  case Nil
  then show ?case by simp
next
  case (Cons x xs)
  from Cons.prems(1) obtain v1 where s: "cmd_send_opt E v x = Inr v1"
    and r: "cmd_send_opts E v1 xs = Inr v'"
    by (auto split: sum.splits)
  show ?case
  proof (cases "x = Opt_p p")
    case True
    with cmd_send_opt_sets_parent [of E v p v1] s obtain sp
      where sp: "realpath E p = Inr sp" "snapshot_parent v1 = Some sp" by auto
    from cmd_send_opts_keeps_parent [OF r sp(2)] sp(1) show ?thesis by simp
  next
    case False
    with Cons.prems(2) have "Opt_p p \<in> set xs" by simp
    from Cons.IH [OF r this] show ?thesis .
  qed
qed

text \<open>
  C9. When the option \<^verbatim>\<open>-p\<close> names a path and the options and the preparation
  succeed, the path resolves, the root id found for it is the parent of the first item and
  is in the clone-source array before the second loop starts, and every send ioctl of the
  run is handed clone sources that hold it: the array that an item passes to the ioctl is
  the one its parent search scans.
\<close>

theorem cmd_send_parent_is_clone_source:
  assumes "Opt_p p \<in> set opts"
    and "cmd_send_opts (T At_setup) cmd_send_init opts = Inr v1"
    and "cmd_send_prepare (T At_setup) v1 args = Inr v2"
  shows "\<exists>sp. realpath (T At_setup) p = Inr sp \<and>
           get_root_id (send v2) (subvol_strip_mountpoint (T At_setup) (root_path_str (send v2)) sp)
             = Inr (parent_root_id v2) \<and>
           parent_root_id v2 \<in> set (clone_sources (send v2)) \<and>
           (\<forall>x \<in> set (sends_of (new_calls w (snd (cmd_send T opts args w)))).
              parent_root_id v2 \<in> set (io_clone_sources (snd x)))"
proof -
  from cmd_send_opts_parent [OF assms(2,1)] obtain sp
    where rp: "realpath (T At_setup) p = Inr sp" and sp: "snapshot_parent v1 = Some sp" by auto
  note p = cmd_send_prepare_parent [OF sp assms(3)]
  have "\<forall>x \<in> set (sends_of (new_calls w (snd (cmd_send T opts args w)))).
            parent_root_id v2 \<in> set (io_clone_sources (snd x))"
  proof (cases "check_subvols (T At_setup) (send v2) args")
    case (Inl r)
    with assms have "cmd_send T opts args w = (Inl (Fail r), w)"
      by (simp add: cmd_send_def cmd_send_setup_def)
    then show ?thesis by (simp add: new_calls_def)
  next
    case (Inr u)
    with assms have s: "cmd_send_setup (T At_setup) opts args = Inr v2"
      by (simp add: cmd_send_setup_def)
    from cmd_send_log [of T opts args w] s
    have all: "\<forall>k < length (sends_of (new_calls w (snd (cmd_send T opts args w)))).
        set (clone_sources (send v2))
          \<subseteq> set (io_clone_sources
                (snd (sends_of (new_calls w (snd (cmd_send T opts args w))) ! k)))"
      by auto
    show ?thesis
    proof
      fix io assume "io \<in> set (sends_of (new_calls w (snd (cmd_send T opts args w))))"
      then obtain k where "k < length (sends_of (new_calls w (snd (cmd_send T opts args w))))"
        and "sends_of (new_calls w (snd (cmd_send T opts args w))) ! k = io"
        by (auto simp: in_set_conv_nth)
      with all p show "parent_root_id v2 \<in> set (io_clone_sources (snd io))" by auto
    qed
  qed
  with p rp show ?thesis by (intro exI [of _ sp]) simp
qed

lemma run_p1_sends:
  "sends_of (new_calls world_init
      (snd (cmd_send (steady env_example) [Opt_p ''/mnt/P''] [''/mnt/S1''] world_init)))
     = [(''/mnt/S1'', \<lparr>io_clone_sources = [256], io_parent_root = 256, io_flags = {}\<rparr>)]"
  by code_simp

theorem cmd_send_parent_is_clone_source_witness:
  "get_root_id (send vars_p) ''P'' = Inr 256 \<and>
   256 \<in> set (clone_sources (send vars_p)) \<and>
   256 \<in> set (io_clone_sources
      (snd (hd (sends_of (new_calls world_init
          (snd (cmd_send (steady env_example) [Opt_p ''/mnt/P''] [''/mnt/S1''] world_init)))))))"
proof -
  have h0: "Opt_p ''/mnt/P'' \<in> set [Opt_p ''/mnt/P'']" by simp
  have h1: "cmd_send_opts (steady env_example At_setup) cmd_send_init [Opt_p ''/mnt/P''] = Inr vars_opt_p"
    by code_simp
  have h3: "cmd_send_prepare (steady env_example At_setup) vars_opt_p [''/mnt/S1''] = Inr vars_p" by code_simp
  have rp: "realpath (steady env_example At_setup) ''/mnt/P'' = Inr ''/mnt/P''" by code_simp
  have s: "subvol_strip_mountpoint (steady env_example At_setup) (root_path_str (send vars_p)) ''/mnt/P'' = ''P''"
    by code_simp
  have pr: "parent_root_id vars_p = 256" by (simp add: vars_p_def)
  from cmd_send_parent_is_clone_source [where T = "steady env_example" and w = world_init, OF h0 h1 h3]
  show ?thesis unfolding rp pr run_p1_sends using s by auto
qed

section \<open>Read-only subvolumes only\<close>

lemma is_writable_not_ro:
  "is_writable E p \<Longrightarrow> \<exists>subvol. realpath E p = Inr subvol \<and> is_subvol_ro E s subvol \<noteq> Inr True"
  by (auto simp: is_writable_def is_subvol_ro_def split: sum.splits option.splits)

lemma cmd_send_opt_writable:
  assumes "is_writable E p" and "p \<in> set (opt_paths x)"
  shows "\<exists>r. cmd_send_opt E v x = Inl r"
proof (cases x)
  case (Opt_c q)
  with assms have q: "q = p" by simp
  obtain subvol where rp: "realpath E p = Inr subvol"
    and ro: "\<And>s. is_subvol_ro E s subvol \<noteq> Inr True"
    using assms(1) by (auto simp: is_writable_def is_subvol_ro_def split: sum.splits option.splits)
  show ?thesis
  proof (cases "init_root_path E (send v) subvol")
    case (Inl r)
    with Opt_c q rp show ?thesis by simp
  next
    case (Inr s1)
    show ?thesis
    proof (cases "get_root_id s1 (subvol_strip_mountpoint E (root_path_str s1) subvol)")
      case (Inl r)
      with Opt_c q rp \<open>init_root_path E (send v) subvol = Inr s1\<close> show ?thesis by simp
    next
      case rid: (Inr rid)
      show ?thesis
      proof (cases "is_subvol_ro E s1 subvol")
        case (Inl r)
        with Opt_c q rp \<open>init_root_path E (send v) subvol = Inr s1\<close> rid show ?thesis by simp
      next
        case (Inr b)
        with ro [of s1] have "\<not> b" by auto
        with Inr Opt_c q rp \<open>init_root_path E (send v) subvol = Inr s1\<close> rid show ?thesis
          by simp
      qed
    qed
  qed
next
  case (Opt_p q)
  with assms have q: "q = p" by simp
  obtain subvol where rp: "realpath E p = Inr subvol"
    and ro: "\<And>s. is_subvol_ro E s subvol \<noteq> Inr True"
    using assms(1) by (auto simp: is_writable_def is_subvol_ro_def split: sum.splits option.splits)
  show ?thesis
  proof (cases "is_subvol_ro E (send v) subvol")
    case (Inl r)
    with Opt_p q rp show ?thesis by simp
  next
    case (Inr b)
    with ro [of "send v"] have "\<not> b" by auto
    with Inr Opt_p q rp show ?thesis by simp
  qed
qed (use assms in simp_all)

lemma cmd_send_opts_writable:
  assumes "is_writable E p"
  shows "p \<in> set (concat (map opt_paths opts)) \<Longrightarrow> \<exists>r. cmd_send_opts E v opts = Inl r"
proof (induction opts arbitrary: v)
  case Nil
  then show ?case by simp
next
  case (Cons x xs)
  show ?case
  proof (cases "cmd_send_opt E v x")
    case (Inl r)
    then show ?thesis by simp
  next
    case (Inr v1)
    with cmd_send_opt_writable [OF assms, of x v] have "p \<notin> set (opt_paths x)" by auto
    with Cons.prems have "p \<in> set (concat (map opt_paths xs))" by simp
    from Cons.IH [OF this, of v1] Inr show ?thesis by simp
  qed
qed

lemma check_subvols_writable:
  assumes "is_writable E p"
  shows "p \<in> set args \<Longrightarrow> \<exists>r. check_subvols E s args = Inl r"
proof (induction args)
  case Nil
  then show ?case by simp
next
  case (Cons a as)
  show ?case
  proof (cases "a = p")
    case True
    obtain subvol where rp: "realpath E p = Inr subvol"
      and ro: "is_subvol_ro E s subvol \<noteq> Inr True"
      using is_writable_not_ro [OF assms, of s] by auto
    obtain ret mr where fm: "find_mount_root E subvol = (ret, mr)" by force
    show ?thesis
    proof (cases "is_subvol_ro E s subvol")
      case (Inl r)
      with True rp fm show ?thesis by simp
    next
      case (Inr b)
      with ro have "\<not> b" by auto
      with Inr True rp fm show ?thesis by simp
    qed
  next
    case False
    with Cons.prems have "p \<in> set as" by simp
    from Cons.IH [OF this] obtain r where r: "check_subvols E s as = Inl r" ..
    then show ?thesis
      by (auto split: sum.splits prod.splits)
  qed
qed

lemma cmd_send_prepare_fail:
  "args \<noteq> [] \<Longrightarrow> cmd_send_prepare E v args = Inl f \<Longrightarrow> \<exists>r. f = Fail r"
  by (auto simp: cmd_send_prepare_def
      split: list.splits option.splits sum.splits if_splits prod.splits)

text \<open>
  C10. If a path given with \<^verbatim>\<open>-c\<close> or \<^verbatim>\<open>-p\<close>, or a subvolume argument, refers to
  a writable subvolume, the command fails and the state of the process is what it was: no
  byte has been written to the dump stream and no send ioctl has been made.
\<close>

theorem cmd_send_requires_read_only:
  assumes "p \<in> set (concat (map opt_paths opts)) \<union> set args"
    and "is_writable (T At_setup) p"
  shows "\<exists>r. cmd_send T opts args w = (Inl (Fail r), w)"
proof -
  have "\<exists>r. cmd_send_setup (T At_setup) opts args = Inl (Fail r)"
  proof (cases "p \<in> set (concat (map opt_paths opts))")
    case True
    from cmd_send_opts_writable [OF assms(2) True, of cmd_send_init]
    show ?thesis by (auto simp: cmd_send_setup_def)
  next
    case False
    with assms(1) have pa: "p \<in> set args" by simp
    then have ne: "args \<noteq> []" by auto
    show ?thesis
    proof (cases "cmd_send_opts (T At_setup) cmd_send_init opts")
      case (Inl r)
      then show ?thesis by (simp add: cmd_send_setup_def)
    next
      case v1: (Inr v1)
      show ?thesis
      proof (cases "cmd_send_prepare (T At_setup) v1 args")
        case (Inl f)
        with cmd_send_prepare_fail [OF ne Inl] v1 show ?thesis
          by (auto simp: cmd_send_setup_def)
      next
        case (Inr v2)
        from check_subvols_writable [OF assms(2) pa, of "send v2"] v1 Inr
        show ?thesis by (auto simp: cmd_send_setup_def)
      qed
    qed
  qed
  then show ?thesis by (auto simp: cmd_send_def)
qed

theorem cmd_send_requires_read_only_witness:
  "is_writable (steady env_example At_setup) ''/mnt/W'' \<and>
   cmd_send (steady env_example) [Opt_c ''/mnt/P''] [''/mnt/S1'', ''/mnt/W''] world_init
     = (Inl (Fail (- 22)), world_init)"
proof -
  have a: "''/mnt/W'' \<in> set (concat (map opt_paths [Opt_c ''/mnt/P'']))
              \<union> set [''/mnt/S1'', ''/mnt/W'']" by simp
  have b: "is_writable (steady env_example At_setup) ''/mnt/W''" by code_simp
  have c: "fst (cmd_send (steady env_example) [Opt_c ''/mnt/P''] [''/mnt/S1'', ''/mnt/W''] world_init)
             = Inl (Fail (- 22))" by code_simp
  from cmd_send_requires_read_only [where T = "steady env_example" and w = world_init, OF a b] b c
  show ?thesis by auto
qed

section \<open>The root id added after a send\<close>

text \<open>
  C3 on \<^verbatim>\<open>btrfs send -p /mnt/P /mnt/S1 /mnt/S2\<close>, where \<open>S1\<close> (root id 257) is a
  snapshot of \<open>P\<close> (256) and \<open>S2\<close> (258) one of \<open>S1\<close>. The variable \<^verbatim>\<open>root_id\<close> is
  written only by the option \<^verbatim>\<open>-c\<close> and is still 0. After \<open>S1\<close> is sent the code
  adds this 0 to the clone sources, not 257, and the parent search for the second item is
  made for the root id 0 and fails with \<^verbatim>\<open>-ENOENT\<close>. With 257 in the array, the search
  for 258 returns 257.
\<close>

theorem cmd_send_stale_root_id:
  "cmd_send_setup env_example [Opt_p ''/mnt/P''] [''/mnt/S1'', ''/mnt/S2''] = Inr vars_p \<and>
   get_root_id (send vars_p) ''S1'' = Inr 257 \<and>
   send_subvol (steady env_example) vars_p 2 0 ''/mnt/S1'' world_init = (Inr vars_p_after, world_after_S1) \<and>
   clone_sources (send vars_p_after) = [256, 0] \<and>
   send_subvol (steady env_example) vars_p_after 2 1 ''/mnt/S2'' world_after_S1
     = (Inl (Fail (- ENOENT)), world_after_S1) \<and>
   cmd_send (steady env_example) [Opt_p ''/mnt/P''] [''/mnt/S1'', ''/mnt/S2''] world_init
     = (Inl (Fail (- ENOENT)), world_after_S1) \<and>
   find_good_parent ((send vars_p)\<lparr>clone_sources := [256, 257]\<rparr>) 258 = Inr 257"
  by code_simp

end
